theory Spec2Isabelle
  imports Main "HOL-Library.Word" "HOL-Library.Sublist"
begin

unbundle bit_operations_syntax

section \<open>Strings of the host language\<close>

text \<open>
  A string of the source language is a sequence of 16-bit code units; \<open>length\<close> counts
  code units, as the source's \<open>.length\<close> does.  Literals are written \<open>utf16 ''...''\<close>.
\<close>

type_synonym code_unit = "16 word"
type_synonym jsstring = "code_unit list"

definition utf16 :: "string \<Rightarrow> jsstring" where
  "utf16 s = map (\<lambda>c. word_of_nat (of_char c)) s"

text \<open>
  The character class \<open>\s\<close> of a regular expression, which is also the set stripped by
  \<open>trim()\<close>: tab, line feed, vertical tab, form feed, carriage return, space, no-break
  space, U+1680, U+2000..U+200A, U+2028, U+2029, U+202F, U+205F, U+3000 and U+FEFF.
\<close>

definition isWhitespace :: "code_unit \<Rightarrow> bool" where
  "isWhitespace c \<longleftrightarrow>
     (0x9 \<le> c \<and> c \<le> 0xD) \<or> c = 0x20 \<or> c = 0xA0 \<or> c = 0x1680 \<or>
     (0x2000 \<le> c \<and> c \<le> 0x200A) \<or> c = 0x2028 \<or> c = 0x2029 \<or> c = 0x202F \<or>
     c = 0x205F \<or> c = 0x3000 \<or> c = 0xFEFF"

text \<open>The character class \<open>[.!?]\<close>.\<close>

definition isTerminator :: "code_unit \<Rightarrow> bool" where
  "isTerminator c \<longleftrightarrow> c = 0x2E \<or> c = 0x21 \<or> c = 0x3F"

definition SPACE :: code_unit where
  "SPACE = 0x20"

text \<open>\<open>s.trim()\<close>\<close>

definition trim :: "jsstring \<Rightarrow> jsstring" where
  "trim s = rev (dropWhile isWhitespace (rev (dropWhile isWhitespace s)))"

text \<open>\<open>s.replace(/\s+/g, " ")\<close>: every maximal run of whitespace becomes one space.\<close>

function replaceWhitespaceRuns :: "jsstring \<Rightarrow> jsstring" where
  "replaceWhitespaceRuns [] = []"
| "replaceWhitespaceRuns (c # cs) =
     (if isWhitespace c then SPACE # replaceWhitespaceRuns (dropWhile isWhitespace cs)
      else c # replaceWhitespaceRuns cs)"
  by pat_completeness auto
termination
  by (relation "measure length") (auto simp: less_Suc_eq_le length_dropWhile_le)

text \<open>
  \<open>s.split(/\s+/)\<close>: the pieces between maximal runs of whitespace; a leading or trailing
  run gives an empty first or last piece, and the empty string gives one empty piece.
\<close>

function splitWhitespace :: "jsstring \<Rightarrow> jsstring list" where
  "splitWhitespace s =
     (let w = takeWhile (\<lambda>c. \<not> isWhitespace c) s;
          r = dropWhile (\<lambda>c. \<not> isWhitespace c) s
      in if r = [] then [w] else w # splitWhitespace (dropWhile isWhitespace r))"
  by pat_completeness auto
termination
proof (relation "measure length")
  show "wf (measure length)" by simp
next
  fix s :: jsstring and w r
  assume r: "r = dropWhile (\<lambda>c. \<not> isWhitespace c) s" and ne: "r \<noteq> []"
  from ne obtain c cs where rc: "r = c # cs" by (cases r) auto
  with r have "isWhitespace c"
    by (metis hd_dropWhile list.sel(1) ne)
  then have "length (dropWhile isWhitespace r) \<le> length cs"
    by (simp add: rc length_dropWhile_le)
  moreover have "length r \<le> length s"
    by (simp add: r length_dropWhile_le)
  ultimately show "(dropWhile isWhitespace r, s) \<in> measure length"
    by (simp add: rc)
qed

declare splitWhitespace.simps [simp del]

section \<open>Chunker\<close>

record Chunk =
  chunk_text :: jsstring
  start :: nat

definition MAX_CHUNK_LENGTH :: nat where
  "MAX_CHUNK_LENGTH = 220"

text \<open>
  The loop of \<open>splitLongSentence\<close> over the words of the sentence, with the loop variables
  \<open>chunks\<close>, \<open>current\<close>, \<open>currentStart\<close> and \<open>cursor\<close> as arguments; the last equation is
  the push after the loop.
\<close>

fun splitLoop :: "nat \<Rightarrow> jsstring list \<Rightarrow> Chunk list \<Rightarrow> jsstring \<Rightarrow> nat \<Rightarrow> nat \<Rightarrow> Chunk list" where
  "splitLoop startOffset [] chunks current currentStart cursor =
     (if current \<noteq> [] then chunks @ [\<lparr>chunk_text = current, start = currentStart\<rparr>] else chunks)"
| "splitLoop startOffset (word # rest) chunks current currentStart cursor =
     (if word = [] then splitLoop startOffset rest chunks current currentStart cursor
      else
        let next = (if current \<noteq> [] then current @ SPACE # word else word) in
        if length next \<le> MAX_CHUNK_LENGTH
        then splitLoop startOffset rest chunks next
               (if current = [] then startOffset + cursor else currentStart)
               (cursor + (length word + 1))
        else splitLoop startOffset rest
               (if current \<noteq> [] then chunks @ [\<lparr>chunk_text = current, start = currentStart\<rparr>]
                else chunks)
               word (startOffset + cursor) (cursor + (length word + 1)))"

definition splitLongSentence :: "jsstring \<Rightarrow> nat \<Rightarrow> Chunk list" where
  "splitLongSentence sentence startOffset =
     splitLoop startOffset (splitWhitespace sentence) [] [] startOffset 0"

text \<open>
  The loop \<open>while ((match = sentenceRegex.exec(normalized)) !== null)\<close> for the global
  pattern \<open>[^.!?]+[.!?]*\s*\<close>: the search starts at \<open>lastIndex\<close> and moves right over the
  code units at which the pattern cannot start (terminators); a match is the longest
  run of non-terminators, then of terminators, then of whitespace (all three
  quantifiers are greedy, and no backtracking is needed as the last two may be empty).
  The result lists \<open>(match[0], match.index)\<close>; the first argument is the text from
  \<open>lastIndex\<close> on, the second is \<open>lastIndex\<close>.
\<close>

function sentenceMatches :: "jsstring \<Rightarrow> nat \<Rightarrow> (jsstring \<times> nat) list" where
  "sentenceMatches s lastIndex =
     (let skipped = takeWhile isTerminator s;
          r = dropWhile isTerminator s
      in if r = [] then []
         else
           let body = takeWhile (\<lambda>c. \<not> isTerminator c) r;
               r1 = dropWhile (\<lambda>c. \<not> isTerminator c) r;
               marks = takeWhile isTerminator r1;
               r2 = dropWhile isTerminator r1;
               spaces = takeWhile isWhitespace r2;
               r3 = dropWhile isWhitespace r2;
               m = body @ marks @ spaces;
               index = lastIndex + length skipped
           in (m, index) # sentenceMatches r3 (index + length m))"
  by pat_completeness auto
termination
proof (relation "measure (\<lambda>(s, i). length s)")
  show "wf (measure (\<lambda>(s, i). length s))" by simp
next
  fix s :: jsstring and lastIndex :: nat and skipped r body r1 marks r2 spaces r3 m :: jsstring
    and index :: nat
  assume r: "r = dropWhile isTerminator s" and ne: "r \<noteq> []"
    and r1: "r1 = dropWhile (\<lambda>c. \<not> isTerminator c) r"
    and r2: "r2 = dropWhile isTerminator r1"
    and r3: "r3 = dropWhile isWhitespace r2"
  from ne obtain c cs where rc: "r = c # cs" by (cases r) auto
  with r have "\<not> isTerminator c"
    by (metis hd_dropWhile list.sel(1) ne)
  then have "length r1 \<le> length cs"
    by (simp add: r1 rc length_dropWhile_le)
  moreover have "length r3 \<le> length r1"
    unfolding r3 r2 by (meson length_dropWhile_le order_trans)
  moreover have "length r \<le> length s"
    by (simp add: r length_dropWhile_le)
  ultimately show "((r3, index + length m), s, lastIndex) \<in> measure (\<lambda>(s, i). length s)"
    by (simp add: rc)
qed

declare sentenceMatches.simps [simp del]

text \<open>The body of the loop of \<open>chunkText\<close> for one match: the chunks it pushes.\<close>

definition sentenceChunks :: "jsstring \<times> nat \<Rightarrow> Chunk list" where
  "sentenceChunks m =
     (let sentence = trim (fst m) in
      if sentence = [] then []
      else if length sentence \<le> MAX_CHUNK_LENGTH
        then [\<lparr>chunk_text = sentence, start = snd m\<rparr>]
        else splitLongSentence sentence (snd m))"

definition normalize :: "jsstring \<Rightarrow> jsstring" where
  "normalize text = trim (replaceWhitespaceRuns text)"

definition chunkText :: "jsstring \<Rightarrow> Chunk list" where
  "chunkText text =
     (let normalized = normalize text in
      if normalized = [] then []
      else
        let chunks = concat (map sentenceChunks (sentenceMatches normalized 0)) in
        if chunks = [] then splitLongSentence normalized 0 else chunks)"

section \<open>Edit reconciler\<close>

definition clamp :: "int \<Rightarrow> int \<Rightarrow> int \<Rightarrow> int" where
  "clamp v lo hi = max lo (min hi v)"

text \<open>
  \<open>s.slice(b, e)\<close>: a negative argument counts from the end, and both are cut to
  \<open>[0, s.length]\<close>; the result is empty when the end is not after the beginning.
\<close>

definition slice :: "'a list \<Rightarrow> int \<Rightarrow> int \<Rightarrow> 'a list" where
  "slice s b e =
     (let len = int (length s);
          k = (if b < 0 then max (len + b) 0 else min b len);
          final = (if e < 0 then max (len + e) 0 else min e len)
      in take (nat (final - k)) (drop (nat k) s))"

text \<open>\<open>s.indexOf(pat)\<close>: the first position at which \<open>pat\<close> occurs in \<open>s\<close>, or \<open>-1\<close>.\<close>

fun indexOfFrom :: "jsstring \<Rightarrow> jsstring \<Rightarrow> nat \<Rightarrow> int" where
  "indexOfFrom [] pat k = (if pat = [] then int k else - 1)"
| "indexOfFrom (c # cs) pat k =
     (if prefix pat (c # cs) then int k else indexOfFrom cs pat (Suc k))"

definition indexOf :: "jsstring \<Rightarrow> jsstring \<Rightarrow> int" where
  "indexOf s pat = indexOfFrom s pat 0"

definition remapIndexAfterEdit :: "jsstring \<Rightarrow> jsstring \<Rightarrow> int \<Rightarrow> int" where
  "remapIndexAfterEdit oldText newText oldIndex =
     (if oldText = [] \<or> newText = [] then 0
      else if oldText = newText
        then clamp oldIndex 0 (max 0 (int (length newText) - 1))
      else
        let anchorStart = clamp (oldIndex - 22) 0 (int (length oldText));
            anchorEnd = clamp (oldIndex + 22) 0 (int (length oldText));
            anchor = trim (slice oldText anchorStart anchorEnd);
            anchorPos = indexOf newText anchor;
            delta = int (length newText) - int (length oldText)
        in if 8 \<le> length anchor \<and> 0 \<le> anchorPos
           then clamp (anchorPos + (oldIndex - anchorStart)) 0 (max 0 (int (length newText) - 1))
           else clamp (oldIndex + delta) 0 (max 0 (int (length newText) - 1)))"

text \<open>
  The notions of the specification of the reconciler: the bounds of the window of 22
  code units on each side of \<open>oldIndex\<close>, the anchor (the trimmed text of the window),
  an occurrence of a pattern at a position, and the first such position.
\<close>

definition anchorWindowStart :: "jsstring \<Rightarrow> int \<Rightarrow> nat" where
  "anchorWindowStart oldText oldIndex = nat (max 0 (min (int (length oldText)) (oldIndex - 22)))"

definition anchorWindowEnd :: "jsstring \<Rightarrow> int \<Rightarrow> nat" where
  "anchorWindowEnd oldText oldIndex = nat (max 0 (min (int (length oldText)) (oldIndex + 22)))"

definition anchorOf :: "jsstring \<Rightarrow> int \<Rightarrow> jsstring" where
  "anchorOf oldText oldIndex =
     trim (map (\<lambda>i. oldText ! i)
             [anchorWindowStart oldText oldIndex ..< anchorWindowEnd oldText oldIndex])"

definition occursAt :: "jsstring \<Rightarrow> jsstring \<Rightarrow> nat \<Rightarrow> bool" where
  "occursAt pat s p \<longleftrightarrow> p + length pat \<le> length s \<and> take (length pat) (drop p s) = pat"

definition firstOccurrence :: "jsstring \<Rightarrow> jsstring \<Rightarrow> nat \<Rightarrow> bool" where
  "firstOccurrence pat s p \<longleftrightarrow> occursAt pat s p \<and> list_all (\<lambda>q. \<not> occursAt pat s q) [0..<p]"

definition occurs :: "jsstring \<Rightarrow> jsstring \<Rightarrow> bool" where
  "occurs pat s \<longleftrightarrow> list_ex (occursAt pat s) [0..<Suc (length s)]"

definition nonSpaceCount :: "jsstring \<Rightarrow> nat" where
  "nonSpaceCount s = length (filter (\<lambda>c. c \<noteq> SPACE) s)"

section \<open>Reading history\<close>

datatype ReaderType = Pdf | Word

definition readerTypeString :: "ReaderType \<Rightarrow> jsstring" where
  "readerTypeString t = (case t of Pdf \<Rightarrow> utf16 ''pdf'' | Word \<Rightarrow> utf16 ''word'')"

record ReadingHistoryEntry =
  entry_id :: jsstring
  readerType :: ReaderType
  documentName :: jsstring
  entry_text :: jsstring
  currentIndex :: int
  updatedAt :: jsstring

definition MAX_ENTRIES :: nat where
  "MAX_ENTRIES = 12"

definition MAX_TEXT_LENGTH :: nat where
  "MAX_TEXT_LENGTH = 180000"

text \<open>
  One round of the loop of \<open>hashText\<close>.  The source keeps \<open>hash\<close> in a double: \<open>^=\<close> and
  \<open><<\<close> give 32-bit integers, \<open>+=\<close> adds six of them exactly (the sum is below \<open>2^53\<close>)
  and the next \<open>^=\<close>, or the final \<open>>>> 0\<close>, reduces modulo \<open>2^32\<close>; so the value modulo
  \<open>2^32\<close> is the one computed here on 32-bit words.
\<close>

definition hashStep :: "32 word \<Rightarrow> code_unit \<Rightarrow> 32 word" where
  "hashStep hash c =
     (let h = hash XOR ucast c
      in h + (push_bit 1 h + push_bit 4 h + push_bit 7 h + push_bit 8 h + push_bit 24 h))"

definition hexDigit :: "nat \<Rightarrow> code_unit" where
  "hexDigit d = (if d < 10 then 0x30 + word_of_nat d else 0x61 + word_of_nat (d - 10))"

text \<open>\<open>n.toString(16)\<close> for a natural number.\<close>

function toString16 :: "nat \<Rightarrow> jsstring" where
  "toString16 n = (if n < 16 then [hexDigit n] else toString16 (n div 16) @ [hexDigit (n mod 16)])"
  by pat_completeness auto
termination
  by (relation "measure id") auto

declare toString16.simps [simp del]

definition hashText :: "jsstring \<Rightarrow> jsstring" where
  "hashText text = toString16 (unat (foldl hashStep 2166136261 text))"

definition entryId :: "ReaderType \<Rightarrow> jsstring \<Rightarrow> jsstring \<Rightarrow> jsstring" where
  "entryId rt name clipped =
     readerTypeString rt @ utf16 ''-'' @ name @ utf16 ''-'' @ hashText (slice clipped 0 2000)"

text \<open>
  \<open>saveHistoryEntry\<close> on the array that \<open>getAll()\<close> reads from the store; the result is the
  array that \<open>setAll\<close> writes back (the store is unchanged on blank text).  The time
  stamp \<open>now\<close> is an argument.
\<close>

definition saveHistoryEntry ::
  "ReaderType \<Rightarrow> jsstring \<Rightarrow> jsstring \<Rightarrow> int \<Rightarrow> jsstring \<Rightarrow>
     ReadingHistoryEntry list \<Rightarrow> ReadingHistoryEntry list" where
  "saveHistoryEntry rt name text index now stored =
     (if trim text = [] then stored
      else
        let clipped = slice text 0 (int MAX_TEXT_LENGTH);
            ident = entryId rt name clipped;
            nextEntry = \<lparr>entry_id = ident, readerType = rt, documentName = name,
                         entry_text = clipped,
                         currentIndex = max 0 (min index (int (length clipped) - 1)),
                         updatedAt = now\<rparr>;
            existing = filter (\<lambda>entry. entry_id entry \<noteq> ident) stored;
            merged = slice (nextEntry # existing) 0 (int MAX_ENTRIES)
        in merged)"

definition deleteHistoryEntry :: "jsstring \<Rightarrow> ReadingHistoryEntry list \<Rightarrow> ReadingHistoryEntry list" where
  "deleteHistoryEntry ident stored = filter (\<lambda>entry. entry_id entry \<noteq> ident) stored"

section \<open>Speech engine\<close>

text \<open>
  The hook keeps its state in refs and two state variables.  An utterance is created by
  one call of \<open>playQueue\<close>; its handlers close over the chunk \<open>next\<close> and over the
  \<open>baseOptions\<close> of the \<open>startQueue\<close> call that defined \<open>playQueue\<close>.  The options are
  opaque here: \<open>'o\<close> stands for the caller's record of settings and callbacks.  The
  browser has a speech backend: \<open>isSupported\<close> is true, otherwise every operation of
  the hook returns at once.
\<close>

record 'o Utterance =
  chunk :: Chunk
  baseOptions :: 'o

text \<open>What the engine calls, in the order of the calls: the backend and the callbacks
  of the options (a callback that the options leave out is not called at all).\<close>

datatype 'o Effect =
    SynthCancel
  | SynthSpeak "'o Utterance"
  | SynthPause
  | SynthResume
  | OnStart 'o
  | OnBoundary 'o nat
  | OnEnd 'o

record 'o Engine =
  queueRef :: "Chunk list"
  activeUtteranceRef :: "'o Utterance option"
  sourceTextRef :: jsstring
  lastCharIndexRef :: nat
  lastSpeakOptionsRef :: "'o option"
  progressTimerRef :: "'o Utterance option"
  isSpeaking :: bool
  isPaused :: bool
  effects :: "'o Effect list"

definition initialEngine :: "'o Engine" where
  "initialEngine =
     \<lparr>queueRef = [], activeUtteranceRef = None, sourceTextRef = [], lastCharIndexRef = 0,
      lastSpeakOptionsRef = None, progressTimerRef = None, isSpeaking = False,
      isPaused = False, effects = []\<rparr>"

definition emit :: "'o Effect \<Rightarrow> 'o Engine \<Rightarrow> 'o Engine" where
  "emit e s = s\<lparr>effects := effects s @ [e]\<rparr>"

definition clearProgressTimer :: "'o Engine \<Rightarrow> 'o Engine" where
  "clearProgressTimer s = s\<lparr>progressTimerRef := None\<rparr>"

text \<open>\<open>Math.max(0, Math.min(relativeIndex, Math.max(0, next.text.length - 1)))\<close>\<close>

definition clampRelative :: "Chunk \<Rightarrow> int \<Rightarrow> nat" where
  "clampRelative c relativeIndex =
     nat (max 0 (min relativeIndex (max 0 (int (length (chunk_text c)) - 1))))"

definition emitProgress :: "'o Utterance \<Rightarrow> int \<Rightarrow> 'o Engine \<Rightarrow> 'o Engine" where
  "emitProgress u relativeIndex s =
     (let clamped = clampRelative (chunk u) relativeIndex;
          absoluteIndex = start (chunk u) + clamped
      in if absoluteIndex < lastCharIndexRef s then s
         else emit (OnBoundary (baseOptions u) absoluteIndex)
                (s\<lparr>lastCharIndexRef := absoluteIndex\<rparr>))"

definition playQueue :: "'o \<Rightarrow> 'o Engine \<Rightarrow> 'o Engine" where
  "playQueue opts s =
     (case queueRef s of
        [] \<Rightarrow> emit (OnEnd opts)
                (s\<lparr>activeUtteranceRef := None, isSpeaking := False, isPaused := False\<rparr>)
      | next # rest \<Rightarrow>
          let utterance = \<lparr>chunk = next, baseOptions = opts\<rparr>
          in emit (SynthSpeak utterance)
               (s\<lparr>queueRef := rest, activeUtteranceRef := Some utterance\<rparr>))"

definition startQueue :: "jsstring \<Rightarrow> 'o \<Rightarrow> nat \<Rightarrow> 'o Engine \<Rightarrow> 'o Engine" where
  "startQueue text opts startOffset s =
     (let textChunks = chunkText text
      in if textChunks = [] then s
         else playQueue opts
                (s\<lparr>queueRef := map (\<lambda>c. c\<lparr>start := start c + startOffset\<rparr>) textChunks\<rparr>))"

definition stop :: "'o Engine \<Rightarrow> 'o Engine" where
  "stop s =
     emit SynthCancel
       ((clearProgressTimer s)
          \<lparr>queueRef := [], activeUtteranceRef := None, sourceTextRef := [],
           lastCharIndexRef := 0, lastSpeakOptionsRef := None\<rparr>)
       \<lparr>isSpeaking := False, isPaused := False\<rparr>"

definition speak :: "jsstring \<Rightarrow> 'o \<Rightarrow> 'o Engine \<Rightarrow> 'o Engine" where
  "speak text opts s =
     (if trim text = [] then s
      else startQueue text opts 0
             ((emit (OnStart opts) ((emit SynthCancel s)\<lparr>isPaused := False\<rparr>))
                \<lparr>sourceTextRef := text, lastCharIndexRef := 0,
                 lastSpeakOptionsRef := Some opts\<rparr>))"

text \<open>
  \<open>pause\<close> and \<open>resume\<close> read the flags \<open>paused\<close> and \<open>speaking\<close> of the backend, which
  are arguments here.  \<open>resume\<close> also reads the state variable \<open>isPaused\<close>; the callback
  is rebuilt at each render, so what it reads is the value of \<open>isPaused\<close> at the render
  that built the callback being called, which may be older than the value in the
  state: it is the argument \<open>renderedPaused\<close>.
\<close>

definition pause :: "bool \<Rightarrow> bool \<Rightarrow> 'o Engine \<Rightarrow> 'o Engine" where
  "pause synthPaused synthSpeaking s =
     (if \<not> synthPaused \<and> (synthSpeaking \<or> activeUtteranceRef s \<noteq> None \<or> queueRef s \<noteq> [])
      then (emit SynthPause s)\<lparr>isPaused := True, isSpeaking := False\<rparr>
      else s)"

definition resume :: "bool \<Rightarrow> bool \<Rightarrow> bool \<Rightarrow> 'o Engine \<Rightarrow> 'o Engine" where
  "resume synthPaused synthSpeaking renderedPaused s =
     (if synthPaused \<or> renderedPaused
      then (emit SynthResume s)\<lparr>isPaused := False, isSpeaking := True\<rparr>
      else
        let sourceText = sourceTextRef s;
            startAt = lastCharIndexRef s
        in case lastSpeakOptionsRef s of
             None \<Rightarrow> s
           | Some options \<Rightarrow>
               if \<not> synthSpeaking \<and> sourceText \<noteq> [] \<and> int startAt < int (length sourceText) - 1
               then startQueue (slice sourceText (int startAt) (int (length sourceText)))
                      options startAt
                      ((emit SynthCancel s)\<lparr>isPaused := False\<rparr>)
               else s)"

text \<open>The handlers of an utterance, and the body of the interval timer that
  \<open>onstart\<close> sets.\<close>

definition onstart :: "'o Utterance \<Rightarrow> 'o Engine \<Rightarrow> 'o Engine" where
  "onstart u s =
     (emitProgress u 0 ((clearProgressTimer s)\<lparr>isSpeaking := True, isPaused := False\<rparr>))
       \<lparr>progressTimerRef := Some u\<rparr>"

definition onpause :: "'o Utterance \<Rightarrow> 'o Engine \<Rightarrow> 'o Engine" where
  "onpause u s = s\<lparr>isPaused := True, isSpeaking := False\<rparr>"

definition onresume :: "'o Utterance \<Rightarrow> 'o Engine \<Rightarrow> 'o Engine" where
  "onresume u s = s\<lparr>isPaused := False, isSpeaking := True\<rparr>"

definition onboundary :: "'o Utterance \<Rightarrow> int \<Rightarrow> 'o Engine \<Rightarrow> 'o Engine" where
  "onboundary u charIndex s = emitProgress u charIndex s"

definition onend :: "'o Utterance \<Rightarrow> 'o Engine \<Rightarrow> 'o Engine" where
  "onend u s =
     playQueue (baseOptions u)
       (clearProgressTimer (emitProgress u (int (length (chunk_text (chunk u))) - 1) s))"

definition onerror :: "'o Utterance \<Rightarrow> 'o Engine \<Rightarrow> 'o Engine" where
  "onerror u s = playQueue (baseOptions u) (clearProgressTimer s)"

text \<open>
  One firing of the interval timer: the flags of the backend, the milliseconds since
  the last boundary event and the estimated relative index (a function of the clock
  and the rate) are arguments.  The timer belongs to the utterance whose \<open>onstart\<close>
  set it.
\<close>

definition timerTick :: "bool \<Rightarrow> bool \<Rightarrow> int \<Rightarrow> int \<Rightarrow> 'o Engine \<Rightarrow> 'o Engine" where
  "timerTick synthSpeaking synthPaused sinceBoundary estimatedRelativeIndex s =
     (case progressTimerRef s of
        None \<Rightarrow> s
      | Some u \<Rightarrow>
          if \<not> synthSpeaking \<or> synthPaused then s
          else if sinceBoundary < 500 then s
          else emitProgress u estimatedRelativeIndex s)"

definition syncState :: "bool \<Rightarrow> bool \<Rightarrow> 'o Engine \<Rightarrow> 'o Engine" where
  "syncState synthPaused synthSpeaking s =
     s\<lparr>isPaused := synthPaused, isSpeaking := (synthSpeaking \<and> \<not> synthPaused)\<rparr>"

text \<open>Everything that can happen to the engine: a call of the caller, an event of the
  backend on some utterance, or a timer.\<close>

datatype 'o Event =
    Speak jsstring 'o
  | Stop
  | Pause bool bool
  | Resume bool bool bool
  | SyncState bool bool
  | UtteranceStart "'o Utterance"
  | UtteranceBoundary "'o Utterance" int
  | UtterancePause "'o Utterance"
  | UtteranceResume "'o Utterance"
  | UtteranceEnd "'o Utterance"
  | UtteranceError "'o Utterance"
  | TimerTick bool bool int int

fun step :: "'o Engine \<Rightarrow> 'o Event \<Rightarrow> 'o Engine" where
  "step s (Speak text opts) = speak text opts s"
| "step s Stop = stop s"
| "step s (Pause p sp) = pause p sp s"
| "step s (Resume p sp rp) = resume p sp rp s"
| "step s (SyncState p sp) = syncState p sp s"
| "step s (UtteranceStart u) = onstart u s"
| "step s (UtteranceBoundary u i) = onboundary u i s"
| "step s (UtterancePause u) = onpause u s"
| "step s (UtteranceResume u) = onresume u s"
| "step s (UtteranceEnd u) = onend u s"
| "step s (UtteranceError u) = onerror u s"
| "step s (TimerTick sp p since est) = timerTick sp p since est s"

definition run :: "'o Engine \<Rightarrow> 'o Event list \<Rightarrow> 'o Engine" where
  "run s evs = foldl step s evs"

text \<open>The stores that the module itself can write, starting from an empty store.\<close>

inductive reachableStore :: "ReadingHistoryEntry list \<Rightarrow> bool" where
  empty: "reachableStore []"
| save: "reachableStore st \<Longrightarrow> reachableStore (saveHistoryEntry rt name text index now st)"
| delete: "reachableStore st \<Longrightarrow> reachableStore (deleteHistoryEntry ident st)"

definition savedEntry :: "ReaderType \<Rightarrow> jsstring \<Rightarrow> jsstring \<Rightarrow> int \<Rightarrow> jsstring \<Rightarrow> ReadingHistoryEntry" where
  "savedEntry rt name text index now =
     \<lparr>entry_id = entryId rt name (take 180000 text), readerType = rt, documentName = name,
      entry_text = take 180000 text,
      currentIndex = max 0 (min index (int (length (take 180000 text)) - 1)),
      updatedAt = now\<rparr>"

text \<open>A store with two entries, for the examples.\<close>

definition exampleStore :: "ReadingHistoryEntry list" where
  "exampleStore =
     [\<lparr>entry_id = utf16 ''pdf-doc-1a47e90b'', readerType = Pdf, documentName = utf16 ''doc'',
       entry_text = utf16 ''abc'', currentIndex = 0, updatedAt = utf16 ''Monday''\<rparr>,
      \<lparr>entry_id = utf16 ''word-memo-0'', readerType = Word, documentName = utf16 ''memo'',
       entry_text = utf16 ''x'', currentIndex = 0, updatedAt = utf16 ''Sunday''\<rparr>]"

text \<open>
  Observations on a run: the effects added between two states, the indices passed to
  \<open>onBoundary\<close>, the utterances handed to the backend, the calls of \<open>onEnd\<close>, and the
  options an effect belongs to.
\<close>

definition newEffects :: "'o Engine \<Rightarrow> 'o Engine \<Rightarrow> 'o Effect list" where
  "newEffects s s' = drop (length (effects s)) (effects s')"

fun boundaryIndices :: "'o Effect list \<Rightarrow> nat list" where
  "boundaryIndices [] = []"
| "boundaryIndices (OnBoundary opts i # es) = i # boundaryIndices es"
| "boundaryIndices (e # es) = boundaryIndices es"

fun submissions :: "'o Effect list \<Rightarrow> 'o Utterance list" where
  "submissions [] = []"
| "submissions (SynthSpeak u # es) = u # submissions es"
| "submissions (e # es) = submissions es"

fun endCalls :: "'o Effect list \<Rightarrow> 'o list" where
  "endCalls [] = []"
| "endCalls (OnEnd opts # es) = opts # endCalls es"
| "endCalls (e # es) = endCalls es"

fun withoutBoundaries :: "'o Effect list \<Rightarrow> 'o Effect list" where
  "withoutBoundaries [] = []"
| "withoutBoundaries (OnBoundary opts i # es) = withoutBoundaries es"
| "withoutBoundaries (e # es) = e # withoutBoundaries es"

fun effectOptions :: "'o Effect \<Rightarrow> 'o option" where
  "effectOptions (SynthSpeak u) = Some (baseOptions u)"
| "effectOptions (OnStart opts) = Some opts"
| "effectOptions (OnBoundary opts i) = Some opts"
| "effectOptions (OnEnd opts) = Some opts"
| "effectOptions e = None"

text \<open>The events that begin or end a session: a call of \<open>speak\<close> or of \<open>stop\<close>.\<close>

fun sessionBoundary :: "'o Event \<Rightarrow> bool" where
  "sessionBoundary (Speak text opts) = True"
| "sessionBoundary Stop = True"
| "sessionBoundary e = False"


text \<open>
  How the backend ends the active utterance: by its \<open>end\<close> event or by its \<open>error\<close>
  event.  \<open>deliver\<close> sends the event to the active utterance, if there is one.
\<close>

datatype Outcome = Completed | Errored

definition deliver :: "'o Engine \<Rightarrow> Outcome \<Rightarrow> 'o Engine" where
  "deliver s out =
     (case activeUtteranceRef s of
        None \<Rightarrow> s
      | Some u \<Rightarrow> (case out of Completed \<Rightarrow> step s (UtteranceEnd u)
                              | Errored \<Rightarrow> step s (UtteranceError u)))"

definition completionRun :: "'o Engine \<Rightarrow> Outcome list \<Rightarrow> 'o Engine" where
  "completionRun s outs = foldl deliver s outs"



text \<open>
  The relation between two states of one session that the progress reports respect:
  the later state has more effects, the indices reported in between are non-decreasing
  from the earlier \<open>lastCharIndexRef\<close> on, and the later \<open>lastCharIndexRef\<close> is the last
  of them.
\<close>

definition advances :: "'o Engine \<Rightarrow> 'o Engine \<Rightarrow> bool" where
  "advances s s' \<longleftrightarrow>
     (\<exists>new. effects s' = effects s @ new \<and>
            sorted (lastCharIndexRef s # boundaryIndices new) \<and>
            lastCharIndexRef s' = last (lastCharIndexRef s # boundaryIndices new))"

text \<open>The two utterances of the text \<open>A. B.\<close> spoken with the options \<open>1\<close>, and a run of
  events on them, for the examples.\<close>

definition utteranceA :: "nat Utterance" where
  "utteranceA = \<lparr>chunk = \<lparr>chunk_text = utf16 ''A.'', start = 0\<rparr>, baseOptions = 1\<rparr>"

definition utteranceB :: "nat Utterance" where
  "utteranceB = \<lparr>chunk = \<lparr>chunk_text = utf16 ''B.'', start = 3\<rparr>, baseOptions = 1\<rparr>"

definition exampleEvents :: "nat Event list" where
  "exampleEvents =
     [UtteranceStart utteranceA, UtteranceBoundary utteranceA 1, UtteranceBoundary utteranceA 0,
      TimerTick True False 600 5, UtteranceEnd utteranceA,
      UtteranceStart utteranceB, UtteranceBoundary utteranceB 1, UtteranceError utteranceB]"

definition exampleSession :: "nat Engine" where
  "exampleSession = speak (utf16 ''A. B. C.'') 1 initialEngine"

text \<open>
  The value that \<open>cursor\<close> gains over a list of words in \<open>splitLongSentence\<close>: the length
  of each word that is not empty, plus one.
\<close>

fun cursorSpan :: "jsstring list \<Rightarrow> nat" where
  "cursorSpan [] = 0"
| "cursorSpan (w # ws) = (if w = [] then 0 else length w + 1) + cursorSpan ws"

text \<open>A chunk text is acceptable when it is not empty and either fits in
  \<open>MAX_CHUNK_LENGTH\<close> or is a single word, that is, has no whitespace in it.\<close>

definition wordOrShort :: "jsstring \<Rightarrow> bool" where
  "wordOrShort t \<longleftrightarrow>
     t \<noteq> [] \<and> (length t \<le> MAX_CHUNK_LENGTH \<or> list_all (\<lambda>c. \<not> isWhitespace c) t)"

text \<open>
  The first match of the sentence pattern in a text that begins with a code unit other
  than a terminator, and the text after that match.
\<close>

definition firstMatch :: "jsstring \<Rightarrow> jsstring" where
  "firstMatch r =
     takeWhile (\<lambda>c. \<not> isTerminator c) r @
     takeWhile isTerminator (dropWhile (\<lambda>c. \<not> isTerminator c) r) @
     takeWhile isWhitespace (dropWhile isTerminator (dropWhile (\<lambda>c. \<not> isTerminator c) r))"

definition afterMatch :: "jsstring \<Rightarrow> jsstring" where
  "afterMatch r =
     dropWhile isWhitespace (dropWhile isTerminator (dropWhile (\<lambda>c. \<not> isTerminator c) r))"

text \<open>Matches listed from left to right without overlap, the first at or after a
  given index.\<close>

fun matchesInOrder :: "nat \<Rightarrow> (jsstring \<times> nat) list \<Rightarrow> bool" where
  "matchesInOrder i [] = True"
| "matchesInOrder i (m # ms) = (i \<le> snd m \<and> matchesInOrder (snd m + length (fst m)) ms)"

text \<open>The invariant of the loop of \<open>splitLongSentence\<close> on the starts of the chunks.\<close>

definition splitInv :: "nat \<Rightarrow> Chunk list \<Rightarrow> jsstring \<Rightarrow> nat \<Rightarrow> nat \<Rightarrow> bool" where
  "splitInv startOffset chunks current currentStart cursor \<longleftrightarrow>
     (if current = [] then chunks = []
      else sorted_wrt (<) (map start chunks) \<and>
           list_all (\<lambda>c. startOffset \<le> start c \<and> start c < currentStart) chunks \<and>
           startOffset \<le> currentStart \<and> currentStart + 2 \<le> startOffset + cursor)"


definition onlyFor :: "'o \<Rightarrow> 'o Effect list \<Rightarrow> bool" where
  "onlyFor opts new \<longleftrightarrow>
     list_all (\<lambda>x. effectOptions x = None \<or> effectOptions x = Some opts) new"


text \<open>\<open>texts.join(" ")\<close>: the texts in order, with one space between neighbours.\<close>

fun joinSpace :: "jsstring list \<Rightarrow> jsstring" where
  "joinSpace [] = []"
| "joinSpace (x # xs) = x @ concat (map (\<lambda>y. SPACE # y) xs)"

text \<open>
  The punctuation that the sentence pattern keeps whole: the text does not begin with
  a terminator, and after a terminator comes another terminator, the end of the text,
  or one whitespace that is itself at the end or before a code unit that is not a
  terminator.
\<close>

fun terminatorsSpaced :: "jsstring \<Rightarrow> bool" where
  "terminatorsSpaced (a # b # cs) =
     ((if isTerminator a
       then isTerminator b \<or> (isWhitespace b \<and> (case cs of [] \<Rightarrow> True | c # _ \<Rightarrow> \<not> isTerminator c))
       else True) \<and>
      terminatorsSpaced (b # cs))"
| "terminatorsSpaced cs = True"

definition wellPunctuated :: "jsstring \<Rightarrow> bool" where
  "wellPunctuated s \<longleftrightarrow>
     (case s of [] \<Rightarrow> True | c # _ \<Rightarrow> \<not> isTerminator c) \<and> terminatorsSpaced s"

text \<open>
  The shape of a normalized text and of its parts: every whitespace in it is a space
  followed by a code unit that is not whitespace.
\<close>

definition spaced :: "jsstring \<Rightarrow> bool" where
  "spaced s \<longleftrightarrow>
     successively (\<lambda>a b. isWhitespace a \<longrightarrow> a = SPACE \<and> \<not> isWhitespace b) s \<and>
     (s = [] \<or> \<not> isWhitespace (last s))"

text \<open>The indices passed to the \<open>onBoundary\<close> of given options.\<close>

fun reportsTo :: "'o \<Rightarrow> 'o Effect list \<Rightarrow> nat list" where
  "reportsTo opts [] = []"
| "reportsTo opts (OnBoundary given i # es) =
     (if given = opts then i # reportsTo opts es else reportsTo opts es)"
| "reportsTo opts (e # es) = reportsTo opts es"

section \<open>Properties of the edit reconciler\<close>

lemma slice_nat: "a \<le> length s \<Longrightarrow> b \<le> length s \<Longrightarrow> slice s (int a) (int b) = take (b - a) (drop a s)"
  by (simp add: slice_def Let_def min_def nat_diff_distrib')

lemma take_drop_nth: "b \<le> length s \<Longrightarrow> take (b - a) (drop a s) = map (\<lambda>i. s ! i) [a..<b]"
  by (simp add: list_eq_iff_nth_eq)

lemma clamp_window_start:
  "clamp (oldIndex - 22) 0 (int (length oldText)) = int (anchorWindowStart oldText oldIndex)"
  by (simp add: clamp_def anchorWindowStart_def)

lemma clamp_window_end:
  "clamp (oldIndex + 22) 0 (int (length oldText)) = int (anchorWindowEnd oldText oldIndex)"
  by (simp add: clamp_def anchorWindowEnd_def)

lemma code_anchor:
  "trim (slice oldText (int (anchorWindowStart oldText oldIndex))
                       (int (anchorWindowEnd oldText oldIndex))) = anchorOf oldText oldIndex"
proof -
  let ?a = "anchorWindowStart oldText oldIndex" and ?b = "anchorWindowEnd oldText oldIndex"
  have la: "?a \<le> length oldText" by (simp add: anchorWindowStart_def)
  have lb: "?b \<le> length oldText" by (simp add: anchorWindowEnd_def)
  show ?thesis
    unfolding anchorOf_def by (simp add: slice_nat [OF la lb] take_drop_nth [OF lb])
qed

lemma occursAt_prefix: "occursAt pat s p \<longleftrightarrow> p \<le> length s \<and> prefix pat (drop p s)"
proof
  assume h: "occursAt pat s p"
  then have "take (length pat) (drop p s) = pat" by (simp add: occursAt_def)
  then have "prefix pat (drop p s)" by (metis take_is_prefix)
  with h show "p \<le> length s \<and> prefix pat (drop p s)" by (simp add: occursAt_def)
next
  assume h: "p \<le> length s \<and> prefix pat (drop p s)"
  then obtain zs where zs: "drop p s = pat @ zs" by (auto simp: prefix_def)
  then have "length pat \<le> length s - p" by (metis length_drop length_append le_add1)
  with h zs show "occursAt pat s p" by (simp add: occursAt_def)
qed

lemma indexOfFrom_spec:
  "(indexOfFrom s pat k = - 1 \<and> (\<forall>p. \<not> occursAt pat s p)) \<or>
   (\<exists>p. indexOfFrom s pat k = int (k + p) \<and> occursAt pat s p \<and> (\<forall>q<p. \<not> occursAt pat s q))"
proof (induction s arbitrary: k)
  case Nil
  show ?case by (auto simp: occursAt_prefix)
next
  case (Cons c cs)
  show ?case
  proof (cases "prefix pat (c # cs)")
    case True
    then have "indexOfFrom (c # cs) pat k = int (k + 0)" "occursAt pat (c # cs) 0"
      by (simp_all add: occursAt_prefix)
    then show ?thesis by blast
  next
    case False
    have shift: "occursAt pat (c # cs) (Suc p) = occursAt pat cs p" for p
      by (simp add: occursAt_prefix)
    have zero: "\<not> occursAt pat (c # cs) 0" using False by (simp add: occursAt_prefix)
    have eq: "indexOfFrom (c # cs) pat k = indexOfFrom cs pat (Suc k)" using False by simp
    from Cons.IH [of "Suc k"] show ?thesis
    proof (elim disjE conjE exE)
      assume "indexOfFrom cs pat (Suc k) = - 1" "\<forall>p. \<not> occursAt pat cs p"
      then have "indexOfFrom (c # cs) pat k = - 1 \<and> (\<forall>p. \<not> occursAt pat (c # cs) p)"
        using eq zero shift by (metis not0_implies_Suc)
      then show ?thesis by blast
    next
      fix p assume h: "indexOfFrom cs pat (Suc k) = int (Suc k + p)" "occursAt pat cs p"
        "\<forall>q<p. \<not> occursAt pat cs q"
      have "indexOfFrom (c # cs) pat k = int (k + Suc p)" using h eq by simp
      moreover have "occursAt pat (c # cs) (Suc p)" using h shift by simp
      moreover have "\<forall>q<Suc p. \<not> occursAt pat (c # cs) q"
      proof (intro allI impI)
        fix q assume "q < Suc p"
        then show "\<not> occursAt pat (c # cs) q"
          using zero shift h(3) by (cases q) auto
      qed
      ultimately show ?thesis by blast
    qed
  qed
qed

lemma firstOccurrence_iff:
  "firstOccurrence pat s p \<longleftrightarrow> occursAt pat s p \<and> (\<forall>q<p. \<not> occursAt pat s q)"
  by (auto simp: firstOccurrence_def list_all_iff)

lemma occurs_iff: "occurs pat s \<longleftrightarrow> (\<exists>p. occursAt pat s p)"
proof
  assume "occurs pat s"
  then show "\<exists>p. occursAt pat s p" by (auto simp: occurs_def list_ex_iff)
next
  assume "\<exists>p. occursAt pat s p"
  then obtain p where p: "occursAt pat s p" ..
  then have "p < Suc (length s)" by (simp add: occursAt_def)
  with p show "occurs pat s" by (auto simp: occurs_def list_ex_iff simp del: upt_Suc)
qed

lemma indexOf_first: "firstOccurrence pat s p \<Longrightarrow> indexOf s pat = int p"
  using indexOfFrom_spec [of s pat 0] unfolding indexOf_def firstOccurrence_iff
  by (metis add_0 int_int_eq nat_neq_iff)

lemma indexOf_absent: "\<not> occurs pat s \<Longrightarrow> indexOf s pat = - 1"
  using indexOfFrom_spec [of s pat 0] unfolding indexOf_def occurs_iff by blast

lemma indexOf_cases: "indexOf s pat = - 1 \<or> 0 \<le> indexOf s pat"
  using indexOfFrom_spec [of s pat 0] unfolding indexOf_def by auto


lemma trim_Nil [simp]: "trim [] = []" by (simp add: trim_def)

lemma nonSpaceCount_le: "nonSpaceCount s \<le> length s" by (simp add: nonSpaceCount_def)

lemma anchorOf_Nil [simp]: "anchorOf [] i = []"
  by (simp add: anchorOf_def anchorWindowStart_def anchorWindowEnd_def)

lemma remapIndex_branches:
  assumes "oldText \<noteq> []" and "newText \<noteq> []" and "oldText \<noteq> newText"
  shows "remapIndexAfterEdit oldText newText oldIndex =
    (if 8 \<le> length (anchorOf oldText oldIndex) \<and> 0 \<le> indexOf newText (anchorOf oldText oldIndex)
     then clamp (indexOf newText (anchorOf oldText oldIndex) +
                  (oldIndex - int (anchorWindowStart oldText oldIndex)))
            0 (max 0 (int (length newText) - 1))
     else clamp (oldIndex + (int (length newText) - int (length oldText)))
            0 (max 0 (int (length newText) - 1)))"
  unfolding remapIndexAfterEdit_def Let_def clamp_window_start clamp_window_end code_anchor
  using assms by simp

lemma clamp_nonempty: "s \<noteq> [] \<Longrightarrow> clamp v 0 (max 0 (int (length s) - 1)) = max 0 (min (int (length s) - 1) v)"
  by (cases s) (simp_all add: clamp_def)

text \<open>
  C9.  On an unchanged text the reconciler returns the index clamped to the valid
  indices of the text: \<open>remapIndex(text, text, i)\<close> is \<open>i\<close> cut to \<open>[0, text.length - 1]\<close>
  (and \<open>0\<close> for the empty text, which has no valid index).
\<close>

theorem remapIndex_unchanged:
  "remapIndexAfterEdit t t i = max 0 (min (int (length t) - 1) i)"
  by (cases t) (auto simp: remapIndexAfterEdit_def clamp_def)

text \<open>
  C5.  The precision path.  For texts \<open>oldText \<noteq> newText\<close> and any integer \<open>oldIndex\<close>: if
  the anchor (the trimmed window from \<open>clamp (oldIndex - 22)\<close> to \<open>clamp (oldIndex + 22)\<close> of
  \<open>oldText\<close>) has at least 8 code units other than a space and \<open>p\<close> is the first position
  at which it occurs in \<open>newText\<close>, the result is \<open>p + (oldIndex - anchorWindowStart)\<close>,
  clamped to \<open>[0, newText.length - 1]\<close>.
\<close>

theorem remapIndex_anchor_path:
  assumes "oldText \<noteq> newText"
    and "8 \<le> nonSpaceCount (anchorOf oldText oldIndex)"
    and "firstOccurrence (anchorOf oldText oldIndex) newText p"
  shows "remapIndexAfterEdit oldText newText oldIndex =
           max 0 (min (int (length newText) - 1)
                    (int p + (oldIndex - int (anchorWindowStart oldText oldIndex))))"
proof -
  let ?anchor = "anchorOf oldText oldIndex"
  have len: "8 \<le> length ?anchor"
    using assms(2) nonSpaceCount_le [of ?anchor] by linarith
  then have old: "oldText \<noteq> []" by auto
  have "occursAt ?anchor newText p" using assms(3) by (simp add: firstOccurrence_def)
  then have "length ?anchor \<le> length newText" by (simp add: occursAt_def)
  with len have new: "newText \<noteq> []" by auto
  have pos: "indexOf newText ?anchor = int p" by (rule indexOf_first [OF assms(3)])
  show ?thesis
    using len pos by (simp add: remapIndex_branches [OF old new assms(1)] clamp_nonempty [OF new])
qed

theorem remapIndex_anchor_path_witness:
  "utf16 ''hello world, this is a test'' \<noteq> utf16 ''Oh, hello world, this is a test'' \<and>
   8 \<le> nonSpaceCount (anchorOf (utf16 ''hello world, this is a test'') 5) \<and>
   firstOccurrence (anchorOf (utf16 ''hello world, this is a test'') 5)
     (utf16 ''Oh, hello world, this is a test'') 4 \<and>
   remapIndexAfterEdit (utf16 ''hello world, this is a test'')
     (utf16 ''Oh, hello world, this is a test'') 5 = 9"
proof -
  let ?old = "utf16 ''hello world, this is a test''"
  let ?new = "utf16 ''Oh, hello world, this is a test''"
  have h1: "?old \<noteq> ?new" by code_simp
  have h2: "8 \<le> nonSpaceCount (anchorOf ?old 5)" by code_simp
  have h3: "firstOccurrence (anchorOf ?old 5) ?new 4" by code_simp
  have "remapIndexAfterEdit ?old ?new 5 =
          max 0 (min (int (length ?new) - 1) (int 4 + (5 - int (anchorWindowStart ?old 5))))"
    by (rule remapIndex_anchor_path [OF h1 h2 h3])
  also have "\<dots> = 9" by code_simp
  finally show ?thesis using h1 h2 h3 by blast
qed

text \<open>
  C6, as stated, fails twice.  With an empty \<open>oldText\<close> the anchor is empty, and the
  function returns \<open>0\<close> where the claim gives the shifted index \<open>2\<close>.  With the anchor
  \<open>a b c d e\<close> (nine code units, five of them not spaces), found in the new text, the
  function takes the anchor path and returns \<open>0\<close>, where the claim gives the shifted
  index \<open>3\<close>.
\<close>

theorem remapIndex_fallback_counterexample:
  "(utf16 [] \<noteq> utf16 ''abc'' \<and>
    nonSpaceCount (anchorOf (utf16 []) 1) < 8 \<and>
    remapIndexAfterEdit (utf16 []) (utf16 ''abc'') 1 \<noteq>
      max 0 (min (int (length (utf16 ''abc'')) - 1)
               (1 + (int (length (utf16 ''abc'')) - int (length (utf16 []))))))
   \<and>
   (utf16 ''a b c d e'' \<noteq> utf16 ''a b c d e xx'' \<and>
    nonSpaceCount (anchorOf (utf16 ''a b c d e'') 0) < 8 \<and>
    remapIndexAfterEdit (utf16 ''a b c d e'') (utf16 ''a b c d e xx'') 0 \<noteq>
      max 0 (min (int (length (utf16 ''a b c d e xx'')) - 1)
               (0 + (int (length (utf16 ''a b c d e xx'')) - int (length (utf16 ''a b c d e''))))))"
  by code_simp

lemma remapIndex_empty:
  "oldText = [] \<or> newText = [] \<Longrightarrow> remapIndexAfterEdit oldText newText oldIndex = 0"
  by (auto simp: remapIndexAfterEdit_def)

text \<open>
  C6, amended.  For texts \<open>oldText \<noteq> newText\<close> with \<open>oldText\<close> not empty, and any integer
  \<open>oldIndex\<close>: whenever the anchor is shorter than 8 code units (spaces inside it
  counted) or does not occur in \<open>newText\<close>, the result is
  \<open>oldIndex + (newText.length - oldText.length)\<close>, clamped to \<open>[0, newText.length - 1]\<close>
  (which is \<open>0\<close> when \<open>newText\<close> is empty).  When \<open>oldText\<close> is empty the result is \<open>0\<close>.
\<close>

theorem remapIndex_fallback:
  assumes "oldText \<noteq> []" and "oldText \<noteq> newText"
    and "length (anchorOf oldText oldIndex) < 8 \<or> \<not> occurs (anchorOf oldText oldIndex) newText"
  shows "remapIndexAfterEdit oldText newText oldIndex =
           max 0 (min (int (length newText) - 1)
                    (oldIndex + (int (length newText) - int (length oldText)))) \<and>
         remapIndexAfterEdit [] newText oldIndex = 0"
proof -
  let ?anchor = "anchorOf oldText oldIndex"
  have "remapIndexAfterEdit oldText newText oldIndex =
           max 0 (min (int (length newText) - 1)
                    (oldIndex + (int (length newText) - int (length oldText))))"
  proof (cases "newText = []")
    case True
    then show ?thesis by (simp add: remapIndex_empty)
  next
    case False
    have "\<not> (8 \<le> length ?anchor \<and> 0 \<le> indexOf newText ?anchor)"
      using assms(3) indexOf_absent [of ?anchor newText] by auto
    then show ?thesis
      by (simp only: remapIndex_branches [OF assms(1) False assms(2)] if_False
            clamp_nonempty [OF False])
  qed
  then show ?thesis by (simp add: remapIndex_empty)
qed

theorem remapIndex_fallback_witness:
  "utf16 ''The quick brown fox jumps'' \<noteq> [] \<and>
   utf16 ''The quick brown fox jumps'' \<noteq> utf16 ''A quick brown fox jumps!'' \<and>
   (length (anchorOf (utf16 ''The quick brown fox jumps'') 3) < 8 \<or>
    \<not> occurs (anchorOf (utf16 ''The quick brown fox jumps'') 3)
         (utf16 ''A quick brown fox jumps!'')) \<and>
   remapIndexAfterEdit (utf16 ''The quick brown fox jumps'')
     (utf16 ''A quick brown fox jumps!'') 3 = 2 \<and>
   remapIndexAfterEdit [] (utf16 ''A quick brown fox jumps!'') 3 = 0"
proof -
  let ?old = "utf16 ''The quick brown fox jumps''"
  let ?new = "utf16 ''A quick brown fox jumps!''"
  have h1: "?old \<noteq> []" by code_simp
  have h2: "?old \<noteq> ?new" by code_simp
  have h3: "length (anchorOf ?old 3) < 8 \<or> \<not> occurs (anchorOf ?old 3) ?new" by code_simp
  note th = remapIndex_fallback [OF h1 h2 h3]
  have "remapIndexAfterEdit ?old ?new 3 =
          max 0 (min (int (length ?new) - 1) (3 + (int (length ?new) - int (length ?old))))"
    using th by (rule conjunct1)
  also have "\<dots> = 2" by code_simp
  finally have r: "remapIndexAfterEdit ?old ?new 3 = 2" .
  have e: "remapIndexAfterEdit [] ?new 3 = 0" using th by (rule conjunct2)
  show ?thesis using h1 h2 h3 r e by (intro conjI)
qed

section \<open>Properties of the chunker\<close>

text \<open>
  C7, as stated, fails: the third chunk of the example does not start at offset 38.
\<close>

theorem chunkText_example_counterexample:
  "map start (chunkText (utf16 ''Bonjour. Comment vas tu aujourd'hui? Tres bien merci.''))
     \<noteq> [0, 9, 38]"
  by code_simp

text \<open>
  C7, amended.  For the text \<open>Bonjour. Comment vas tu aujourd'hui? Tres bien merci.\<close> the
  chunker returns exactly 3 chunks, one per sentence, starting at offsets 0, 9 and 37.
\<close>

theorem chunkText_example:
  "map chunk_text (chunkText (utf16 ''Bonjour. Comment vas tu aujourd'hui? Tres bien merci.''))
     = [utf16 ''Bonjour.'', utf16 ''Comment vas tu aujourd'hui?'', utf16 ''Tres bien merci.''] \<and>
   map start (chunkText (utf16 ''Bonjour. Comment vas tu aujourd'hui? Tres bien merci.''))
     = [0, 9, 37]"
  by code_simp

section \<open>Properties of the reading history\<close>

lemma slice_take: "slice s 0 (int n) = take n s"
  by (simp add: slice_def Let_def min_def)

lemma slice_take_numeral: "slice s 0 (numeral n) = take (numeral n) s"
  using slice_take [of s "numeral n"] by simp

lemma trim_nonempty: "trim s \<noteq> [] \<Longrightarrow> s \<noteq> []"
  by auto

lemma saveHistoryEntry_nonblank:
  assumes "trim text \<noteq> []"
  shows "saveHistoryEntry rt name text index now stored =
           take 12 (savedEntry rt name text index now #
                    filter (\<lambda>entry. entry_id entry \<noteq> entryId rt name (take 180000 text)) stored)"
  using assms
  by (simp only: saveHistoryEntry_def Let_def MAX_ENTRIES_def MAX_TEXT_LENGTH_def
        of_nat_numeral slice_take_numeral if_False savedEntry_def)

lemma saveHistoryEntry_distinct:
  assumes "distinct (map entry_id stored)"
  shows "distinct (map entry_id (saveHistoryEntry rt name text index now stored))"
proof (cases "trim text = []")
  case True
  then show ?thesis using assms by (simp add: saveHistoryEntry_def)
next
  case False
  let ?ident = "entryId rt name (take 180000 text)"
  let ?existing = "filter (\<lambda>entry. entry_id entry \<noteq> ?ident) stored"
  have "distinct (map entry_id ?existing)"
    using assms by (simp add: distinct_map_filter)
  moreover have "?ident \<notin> set (map entry_id ?existing)" by auto
  moreover have "entry_id (savedEntry rt name text index now) = ?ident"
    by (simp add: savedEntry_def)
  ultimately have "distinct (map entry_id (savedEntry rt name text index now # ?existing))"
    by simp
  then have "distinct (take 12 (map entry_id (savedEntry rt name text index now # ?existing)))"
    by (rule distinct_take)
  then show ?thesis
    by (simp only: saveHistoryEntry_nonblank [OF False] take_map)
qed

lemma saveHistoryEntry_length:
  assumes "length stored \<le> 12"
  shows "length (saveHistoryEntry rt name text index now stored) \<le> 12"
proof (cases "trim text = []")
  case True
  then show ?thesis using assms by (simp add: saveHistoryEntry_def)
next
  case False
  show ?thesis
    by (simp only: saveHistoryEntry_nonblank [OF False] length_take min.cobounded2)
qed

lemma reachableStore_invariant:
  "reachableStore st \<Longrightarrow> distinct (map entry_id st) \<and> length st \<le> 12"
proof (induction rule: reachableStore.induct)
  case empty
  show ?case by simp
next
  case (save st rt name t index now)
  then show ?case by (simp add: saveHistoryEntry_distinct saveHistoryEntry_length)
next
  case (delete st ident)
  have "length (deleteHistoryEntry ident st) \<le> length st"
    by (simp add: deleteHistoryEntry_def)
  moreover have "distinct (map entry_id (deleteHistoryEntry ident st))"
    using delete by (simp add: deleteHistoryEntry_def distinct_map_filter)
  ultimately show ?case using delete by simp
qed

text \<open>
  C10.  A call of \<open>saveHistoryEntry\<close> with non-blank text, on a store whose ids are
  pairwise distinct (as they are in every store the module has written), leaves a
  store of at most 12 entries with pairwise distinct ids; its first entry is the saved
  one, whose text is the first 180000 code units of the text and whose index lies in
  \<open>[0, savedText.length - 1]\<close>.
\<close>

theorem saveHistoryEntry_invariant:
  assumes "trim text \<noteq> []" and "distinct (map entry_id stored)"
  shows "let saved = saveHistoryEntry rt name text index now stored;
             entry = hd saved
         in saved \<noteq> [] \<and> length saved \<le> 12 \<and> distinct (map entry_id saved) \<and>
            entry_id entry = entryId rt name (take 180000 text) \<and>
            entry_text entry = take 180000 text \<and> length (entry_text entry) \<le> 180000 \<and>
            0 \<le> currentIndex entry \<and> currentIndex entry \<le> int (length (entry_text entry)) - 1"
proof -
  let ?clipped = "take 180000 text"
  let ?entry = "savedEntry rt name text index now"
  let ?existing = "filter (\<lambda>entry. entry_id entry \<noteq> entryId rt name ?clipped) stored"
  note saved = saveHistoryEntry_nonblank [OF assms(1), of rt name index now stored]
  have ne: "?clipped \<noteq> []" using trim_nonempty [OF assms(1)] by simp
  then have pos: "1 \<le> int (length ?clipped)" by (cases ?clipped) simp_all
  have d: "distinct (map entry_id (take 12 (?entry # ?existing)))"
    using saveHistoryEntry_distinct [OF assms(2), of rt name "text" index now] by (simp only: saved)
  have hd: "hd (take 12 (?entry # ?existing)) = ?entry"
    by (simp add: take_Cons')
  have nn: "take 12 (?entry # ?existing) \<noteq> []" by (simp add: take_Cons')
  have len: "length (take 12 (?entry # ?existing)) \<le> 12" by (simp only: length_take min.cobounded2)
  have len2: "length ?clipped \<le> 180000" by (simp only: length_take min.cobounded2)
  have sel: "entry_id ?entry = entryId rt name ?clipped" "entry_text ?entry = ?clipped"
    "currentIndex ?entry = max 0 (min index (int (length ?clipped) - 1))"
    by (simp_all add: savedEntry_def)
  have idx: "0 \<le> max 0 (min index (int (length ?clipped) - 1))"
    "max 0 (min index (int (length ?clipped) - 1)) \<le> int (length ?clipped) - 1"
    using pos by linarith+
  show ?thesis
    unfolding saved Let_def hd
    by (simp only: sel d nn len len2 idx simp_thms)
qed

theorem saveHistoryEntry_invariant_witness:
  "trim (utf16 ''abc'') \<noteq> [] \<and> distinct (map entry_id exampleStore) \<and>
   saveHistoryEntry Pdf (utf16 ''doc'') (utf16 ''abc'') 7 (utf16 ''Tuesday'') exampleStore
     = [\<lparr>entry_id = utf16 ''pdf-doc-1a47e90b'', readerType = Pdf, documentName = utf16 ''doc'',
         entry_text = utf16 ''abc'', currentIndex = 2, updatedAt = utf16 ''Tuesday''\<rparr>,
        \<lparr>entry_id = utf16 ''word-memo-0'', readerType = Word, documentName = utf16 ''memo'',
         entry_text = utf16 ''x'', currentIndex = 0, updatedAt = utf16 ''Sunday''\<rparr>] \<and>
   (let saved = saveHistoryEntry Pdf (utf16 ''doc'') (utf16 ''abc'') 7 (utf16 ''Tuesday'')
                  exampleStore;
        entry = hd saved
    in saved \<noteq> [] \<and> length saved \<le> 12 \<and> distinct (map entry_id saved) \<and>
       entry_id entry = entryId Pdf (utf16 ''doc'') (take 180000 (utf16 ''abc'')) \<and>
       entry_text entry = take 180000 (utf16 ''abc'') \<and> length (entry_text entry) \<le> 180000 \<and>
       0 \<le> currentIndex entry \<and> currentIndex entry \<le> int (length (entry_text entry)) - 1)"
proof -
  have h1: "trim (utf16 ''abc'') \<noteq> []" by code_simp
  have h2: "distinct (map entry_id exampleStore)" by code_simp
  have clip: "take 180000 (utf16 ''abc'') = utf16 ''abc''" by (simp add: utf16_def)
  have clip2: "take 2000 (utf16 ''abc'') = utf16 ''abc''" by (simp add: utf16_def)
  have "foldl hashStep 2166136261 (utf16 ''abc'') = 0x1a47e90b" by code_simp
  then have hash: "hashText (utf16 ''abc'') = utf16 ''1a47e90b''"
    by (simp add: hashText_def toString16.simps hexDigit_def utf16_def)
  have "readerTypeString Pdf @ utf16 ''-'' @ utf16 ''doc'' @ utf16 ''-'' @ utf16 ''1a47e90b''
          = utf16 ''pdf-doc-1a47e90b''"
    by code_simp
  then have ident: "entryId Pdf (utf16 ''doc'') (utf16 ''abc'') = utf16 ''pdf-doc-1a47e90b''"
    by (simp only: entryId_def slice_take_numeral clip2 hash)
  have "take 12
          (\<lparr>entry_id = utf16 ''pdf-doc-1a47e90b'', readerType = Pdf, documentName = utf16 ''doc'',
            entry_text = utf16 ''abc'',
            currentIndex = max 0 (min 7 (int (length (utf16 ''abc'')) - 1)),
            updatedAt = utf16 ''Tuesday''\<rparr> #
           filter (\<lambda>entry. entry_id entry \<noteq> utf16 ''pdf-doc-1a47e90b'') exampleStore)
        = [\<lparr>entry_id = utf16 ''pdf-doc-1a47e90b'', readerType = Pdf, documentName = utf16 ''doc'',
            entry_text = utf16 ''abc'', currentIndex = 2, updatedAt = utf16 ''Tuesday''\<rparr>,
           \<lparr>entry_id = utf16 ''word-memo-0'', readerType = Word, documentName = utf16 ''memo'',
            entry_text = utf16 ''x'', currentIndex = 0, updatedAt = utf16 ''Sunday''\<rparr>]"
    by code_simp
  then have ev: "saveHistoryEntry Pdf (utf16 ''doc'') (utf16 ''abc'') 7 (utf16 ''Tuesday'')
                   exampleStore
        = [\<lparr>entry_id = utf16 ''pdf-doc-1a47e90b'', readerType = Pdf, documentName = utf16 ''doc'',
            entry_text = utf16 ''abc'', currentIndex = 2, updatedAt = utf16 ''Tuesday''\<rparr>,
           \<lparr>entry_id = utf16 ''word-memo-0'', readerType = Word, documentName = utf16 ''memo'',
            entry_text = utf16 ''x'', currentIndex = 0, updatedAt = utf16 ''Sunday''\<rparr>]"
    by (simp only: saveHistoryEntry_nonblank [OF h1] savedEntry_def clip ident)
  from saveHistoryEntry_invariant [OF h1 h2, of Pdf "utf16 ''doc''" 7 "utf16 ''Tuesday''"]
  show ?thesis
    using h1 h2 ev by (intro conjI) assumption+
qed

section \<open>Bounds on the chunks\<close>

subsection \<open>Whitespace, trimming and splitting\<close>

lemma trim_eq_Nil: "trim s = [] \<longleftrightarrow> (\<forall>c\<in>set s. isWhitespace c)"
proof -
  have 1: "dropWhile isWhitespace (rev (dropWhile isWhitespace s)) = [] \<longleftrightarrow>
        dropWhile isWhitespace s = []"
  proof
    assume h: "dropWhile isWhitespace (rev (dropWhile isWhitespace s)) = []"
    show "dropWhile isWhitespace s = []"
    proof (rule ccontr)
      assume ne: "dropWhile isWhitespace s \<noteq> []"
      then have "\<not> isWhitespace (hd (dropWhile isWhitespace s))" by (rule hd_dropWhile)
      moreover have "hd (dropWhile isWhitespace s) \<in> set (rev (dropWhile isWhitespace s))"
        using ne by simp
      ultimately show False using h unfolding dropWhile_eq_Nil_conv by blast
    qed
  next
    assume a: "dropWhile isWhitespace s = []"
    show "dropWhile isWhitespace (rev (dropWhile isWhitespace s)) = []"
      unfolding a by simp
  qed
  have "trim s = [] \<longleftrightarrow> dropWhile isWhitespace (rev (dropWhile isWhitespace s)) = []"
    unfolding trim_def by (rule rev_is_Nil_conv)
  also have "\<dots> \<longleftrightarrow> dropWhile isWhitespace s = []" by (rule 1)
  also have "\<dots> \<longleftrightarrow> (\<forall>c\<in>set s. isWhitespace c)" by (rule dropWhile_eq_Nil_conv)
  finally show ?thesis .
qed

lemma length_trim_le: "length (trim s) \<le> length s"
proof -
  have "length (trim s) \<le> length (rev (dropWhile isWhitespace s))"
    unfolding trim_def length_rev [of "dropWhile isWhitespace (rev (dropWhile isWhitespace s))"]
    by (rule length_dropWhile_le)
  also have "\<dots> \<le> length s" unfolding length_rev by (rule length_dropWhile_le)
  finally show ?thesis .
qed

lemma filter_dropWhile_whitespace:
  "filter (\<lambda>c. \<not> isWhitespace c) (dropWhile isWhitespace s) = filter (\<lambda>c. \<not> isWhitespace c) s"
  by (induction s) simp_all

lemma isWhitespace_SPACE [simp]: "isWhitespace SPACE"
  by (simp add: isWhitespace_def SPACE_def)

lemma filter_replaceWhitespaceRuns:
  "filter (\<lambda>c. \<not> isWhitespace c) (replaceWhitespaceRuns s) = filter (\<lambda>c. \<not> isWhitespace c) s"
proof (induction s rule: replaceWhitespaceRuns.induct)
  case 1
  show ?case by simp
next
  case (2 c cs)
  show ?case
  proof (cases "isWhitespace c")
    case True
    with 2 show ?thesis by (simp add: filter_dropWhile_whitespace)
  next
    case False
    with 2 show ?thesis by simp
  qed
qed

lemma all_whitespace_filter:
  "(\<forall>c\<in>set s. isWhitespace c) \<longleftrightarrow> filter (\<lambda>c. \<not> isWhitespace c) s = []"
  by (simp add: filter_empty_conv)

lemma normalize_eq_Nil: "normalize text = [] \<longleftrightarrow> trim text = []"
  unfolding normalize_def trim_eq_Nil all_whitespace_filter
  by (simp only: filter_replaceWhitespaceRuns)

lemma splitWhitespace_last:
  "dropWhile (\<lambda>c. \<not> isWhitespace c) s = [] \<Longrightarrow>
   splitWhitespace s = [takeWhile (\<lambda>c. \<not> isWhitespace c) s]"
  by (subst splitWhitespace.simps) (simp only: Let_def simp_thms if_True)

lemma splitWhitespace_more:
  "dropWhile (\<lambda>c. \<not> isWhitespace c) s \<noteq> [] \<Longrightarrow>
   splitWhitespace s = takeWhile (\<lambda>c. \<not> isWhitespace c) s #
     splitWhitespace (dropWhile isWhitespace (dropWhile (\<lambda>c. \<not> isWhitespace c) s))"
  by (subst splitWhitespace.simps) (simp only: Let_def if_False)

lemma splitWhitespace_induct [case_names last more]:
  assumes "\<And>s. dropWhile (\<lambda>c. \<not> isWhitespace c) s = [] \<Longrightarrow> P s"
    and "\<And>s. dropWhile (\<lambda>c. \<not> isWhitespace c) s \<noteq> [] \<Longrightarrow>
            P (dropWhile isWhitespace (dropWhile (\<lambda>c. \<not> isWhitespace c) s)) \<Longrightarrow> P s"
  shows "P s"
proof (induction s rule: splitWhitespace.induct)
  case (1 s)
  show ?case
  proof (cases "dropWhile (\<lambda>c. \<not> isWhitespace c) s = []")
    case True
    then show ?thesis by (rule assms(1))
  next
    case False
    then show ?thesis using 1 [OF refl refl False] by (rule assms(2))
  qed
qed

lemma takeWhile_no_whitespace: "\<forall>c\<in>set (takeWhile (\<lambda>c. \<not> isWhitespace c) s). \<not> isWhitespace c"
  by (auto dest: set_takeWhileD)

lemma splitWhitespace_set_more:
  assumes "dropWhile (\<lambda>c. \<not> isWhitespace c) s \<noteq> []"
  shows "set (splitWhitespace s) =
           insert (takeWhile (\<lambda>c. \<not> isWhitespace c) s)
             (set (splitWhitespace
                    (dropWhile isWhitespace (dropWhile (\<lambda>c. \<not> isWhitespace c) s))))"
  by (simp only: splitWhitespace_more [OF assms] list.set)

lemma splitWhitespace_set_last:
  assumes "dropWhile (\<lambda>c. \<not> isWhitespace c) s = []"
  shows "set (splitWhitespace s) = {takeWhile (\<lambda>c. \<not> isWhitespace c) s}"
  by (simp only: splitWhitespace_last [OF assms] list.set)

lemma splitWhitespace_words:
  "\<forall>w\<in>set (splitWhitespace s). \<forall>c\<in>set w. \<not> isWhitespace c"
proof (induction s rule: splitWhitespace_induct)
  case (last s)
  show ?case
    unfolding splitWhitespace_set_last [OF last] using takeWhile_no_whitespace [of s] by blast
next
  case (more s)
  show ?case
    unfolding splitWhitespace_set_more [OF more(1)]
    using takeWhile_no_whitespace [of s] more(2) by blast
qed


lemma dropWhile_whitespace_shorter:
  assumes "dropWhile (\<lambda>c. \<not> isWhitespace c) s \<noteq> []"
  shows "length (dropWhile isWhitespace (dropWhile (\<lambda>c. \<not> isWhitespace c) s)) <
         length (dropWhile (\<lambda>c. \<not> isWhitespace c) s)"
proof -
  let ?r = "dropWhile (\<lambda>c. \<not> isWhitespace c) s"
  from assms obtain c cs where rc: "?r = c # cs" by (cases ?r) auto
  have "\<not> \<not> isWhitespace (hd ?r)" using assms by (rule hd_dropWhile)
  then have "isWhitespace c" unfolding rc by simp
  then have "dropWhile isWhitespace ?r = dropWhile isWhitespace cs" unfolding rc by simp
  moreover have "length (dropWhile isWhitespace cs) \<le> length cs" by (rule length_dropWhile_le)
  ultimately show ?thesis unfolding rc by simp
qed

lemma length_takeWhile_dropWhile: "length (takeWhile P s) + length (dropWhile P s) = length s"
  by (simp only: length_append [symmetric] takeWhile_dropWhile_id)

lemma cursorSpan_splitWhitespace: "cursorSpan (splitWhitespace s) \<le> length s + 1"
proof (induction s rule: splitWhitespace_induct)
  case (last s)
  have "cursorSpan (splitWhitespace s) \<le> length (takeWhile (\<lambda>c. \<not> isWhitespace c) s) + 1"
    unfolding splitWhitespace_last [OF last] by simp
  also have "\<dots> \<le> length s + 1" by (simp add: length_takeWhile_le)
  finally show ?case .
next
  case (more s)
  let ?w = "takeWhile (\<lambda>c. \<not> isWhitespace c) s"
  let ?r = "dropWhile (\<lambda>c. \<not> isWhitespace c) s"
  let ?rest = "dropWhile isWhitespace ?r"
  have "cursorSpan (splitWhitespace s) \<le> length ?w + 1 + cursorSpan (splitWhitespace ?rest)"
    unfolding splitWhitespace_more [OF more(1)] by simp
  also have "\<dots> \<le> length ?w + 1 + (length ?rest + 1)" using more(2) by linarith
  also have "\<dots> \<le> length ?w + 1 + length ?r"
    using dropWhile_whitespace_shorter [OF more(1)] by linarith
  also have "\<dots> = length s + 1"
    using length_takeWhile_dropWhile [of "\<lambda>c. \<not> isWhitespace c" s] by linarith
  finally show ?case .
qed


subsection \<open>The loop of \<open>splitLongSentence\<close>\<close>


lemma splitLoop_texts:
  "list_all (\<lambda>w. list_all (\<lambda>c. \<not> isWhitespace c) w) ws \<Longrightarrow>
   list_all (\<lambda>c. wordOrShort (chunk_text c)) chunks \<Longrightarrow>
   current = [] \<or> wordOrShort current \<Longrightarrow>
   list_all (\<lambda>c. wordOrShort (chunk_text c))
     (splitLoop off ws chunks current currentStart cursor)"
proof (induction ws arbitrary: chunks current currentStart cursor)
  case Nil
  then show ?case by auto
next
  case (Cons w ws)
  from Cons.prems(1) have ws: "list_all (\<lambda>w. list_all (\<lambda>c. \<not> isWhitespace c) w) ws"
    and w: "list_all (\<lambda>c. \<not> isWhitespace c) w"
    by simp_all
  show ?case
  proof (cases "w = []")
    case True
    then show ?thesis using Cons.IH [OF ws Cons.prems(2,3)] by simp
  next
    case False
    let ?next = "if current \<noteq> [] then current @ SPACE # w else w"
    have w': "wordOrShort w" using False w by (simp add: wordOrShort_def)
    show ?thesis
    proof (cases "length ?next \<le> MAX_CHUNK_LENGTH")
      case True
      have "?next = [] \<or> wordOrShort ?next" using True False by (simp add: wordOrShort_def)
      from Cons.IH [OF ws Cons.prems(2) this]
      show ?thesis using True False by (simp add: Let_def)
    next
      case long: False
      have "list_all (\<lambda>c. wordOrShort (chunk_text c))
              (if current \<noteq> [] then chunks @ [\<lparr>chunk_text = current, start = currentStart\<rparr>]
               else chunks)"
        using Cons.prems(2,3) by auto
      from Cons.IH [OF ws this disjI2 [OF w']]
      show ?thesis using long False by (simp add: Let_def)
    qed
  qed
qed

lemma splitInv_push:
  assumes "splitInv off chunks current currentStart cursor" and "current \<noteq> []"
  shows "sorted_wrt (<) (map start (chunks @ [\<lparr>chunk_text = current, start = currentStart\<rparr>]))"
    and "list_all (\<lambda>c. off \<le> start c \<and> start c + 2 \<le> off + cursor)
           (chunks @ [\<lparr>chunk_text = current, start = currentStart\<rparr>])"
  using assms by (auto simp: splitInv_def sorted_wrt_append list_all_iff)

lemma splitLoop_starts:
  "splitInv off chunks current currentStart cursor \<Longrightarrow>
   sorted_wrt (<) (map start (splitLoop off ws chunks current currentStart cursor)) \<and>
   list_all (\<lambda>c. off \<le> start c \<and> start c + 2 \<le> off + cursor + cursorSpan ws)
     (splitLoop off ws chunks current currentStart cursor)"
proof (induction ws arbitrary: chunks current currentStart cursor)
  case Nil
  show ?case
  proof (cases "current = []")
    case True
    with Nil show ?thesis by (simp add: splitInv_def)
  next
    case False
    with splitInv_push [OF Nil False] show ?thesis by simp
  qed
next
  case (Cons w ws)
  show ?case
  proof (cases "w = []")
    case True
    then show ?thesis using Cons.IH [OF Cons.prems] by simp
  next
    case False
    then have lw: "1 \<le> length w" by (cases w) simp_all
    let ?next = "if current \<noteq> [] then current @ SPACE # w else w"
    show ?thesis
    proof (cases "length ?next \<le> MAX_CHUNK_LENGTH")
      case True
      have "splitInv off chunks ?next (if current = [] then off + cursor else currentStart)
              (cursor + (length w + 1))"
        using Cons.prems False lw by (auto simp: splitInv_def)
      from Cons.IH [OF this] show ?thesis
        using True False by (simp add: Let_def add.assoc)
    next
      case long: False
      let ?chunks = "if current \<noteq> [] then chunks @ [\<lparr>chunk_text = current, start = currentStart\<rparr>]
                     else chunks"
      have "splitInv off ?chunks w (off + cursor) (cursor + (length w + 1))"
      proof (cases "current = []")
        case True
        with Cons.prems False lw show ?thesis by (simp add: splitInv_def)
      next
        case ne: False
        have "list_all (\<lambda>c. off \<le> start c \<and> start c < off + cursor)
                (chunks @ [\<lparr>chunk_text = current, start = currentStart\<rparr>])"
          using splitInv_push(2) [OF Cons.prems ne] by (auto simp: list_all_iff)
        with splitInv_push(1) [OF Cons.prems ne] ne False lw
        show ?thesis by (simp add: splitInv_def)
      qed
      from Cons.IH [OF this] show ?thesis
        using long False by (simp add: Let_def add.assoc)
    qed
  qed
qed


lemma splitLongSentence_starts:
  "sorted_wrt (<) (map start (splitLongSentence sentence off)) \<and>
   list_all (\<lambda>c. off \<le> start c \<and> start c < off + length sentence)
     (splitLongSentence sentence off)"
proof -
  have inv: "splitInv off [] [] off 0" by (simp add: splitInv_def)
  note st = splitLoop_starts [OF inv, of "splitWhitespace sentence"]
  have "list_all (\<lambda>c. off \<le> start c \<and> start c < off + length sentence)
          (splitLoop off (splitWhitespace sentence) [] [] off 0)"
    using st cursorSpan_splitWhitespace [of sentence]
    by (auto simp: list_all_iff)
  with st show ?thesis by (simp add: splitLongSentence_def)
qed

lemma splitLongSentence_texts:
  "list_all (\<lambda>c. wordOrShort (chunk_text c)) (splitLongSentence sentence off)"
  unfolding splitLongSentence_def
  by (rule splitLoop_texts) (simp_all add: list_all_iff splitWhitespace_words)


subsection \<open>The matches of the sentence pattern\<close>

lemma sentenceMatches_none:
  "dropWhile isTerminator s = [] \<Longrightarrow> sentenceMatches s i = []"
  by (subst sentenceMatches.simps) (simp only: Let_def simp_thms if_True)

lemma sentenceMatches_some:
  "dropWhile isTerminator s \<noteq> [] \<Longrightarrow>
   sentenceMatches s i =
     (firstMatch (dropWhile isTerminator s), i + length (takeWhile isTerminator s)) #
     sentenceMatches (afterMatch (dropWhile isTerminator s))
       (i + length (takeWhile isTerminator s) + length (firstMatch (dropWhile isTerminator s)))"
  by (subst sentenceMatches.simps) (simp only: Let_def if_False firstMatch_def afterMatch_def)

lemma sentenceMatches_induct [case_names none some]:
  assumes "\<And>s i. dropWhile isTerminator s = [] \<Longrightarrow> P s i"
    and "\<And>s i. dropWhile isTerminator s \<noteq> [] \<Longrightarrow>
            P (afterMatch (dropWhile isTerminator s))
              (i + length (takeWhile isTerminator s) + length (firstMatch (dropWhile isTerminator s)))
            \<Longrightarrow> P s i"
  shows "P s i"
proof (induction s i rule: sentenceMatches.induct)
  case (1 s i)
  show ?case
  proof (cases "dropWhile isTerminator s = []")
    case True
    then show ?thesis by (rule assms(1))
  next
    case False
    have "P (afterMatch (dropWhile isTerminator s))
            (i + length (takeWhile isTerminator s) + length (firstMatch (dropWhile isTerminator s)))"
      using 1 [OF refl refl False refl refl refl refl refl refl refl refl]
      by (simp only: firstMatch_def afterMatch_def)
    with False show ?thesis by (rule assms(2))
  qed
qed

lemma sentenceMatches_in_order: "matchesInOrder i (sentenceMatches s i)"
proof (induction s i rule: sentenceMatches_induct)
  case (none s i)
  then show ?case by (simp only: sentenceMatches_none matchesInOrder.simps)
next
  case (some s i)
  have "matchesInOrder (i + length (takeWhile isTerminator s)) (sentenceMatches s i)"
    unfolding sentenceMatches_some [OF some(1)] using some(2) by simp
  moreover have "matchesInOrder j ms \<Longrightarrow> i \<le> j \<Longrightarrow> matchesInOrder i ms" for j ms
    by (cases ms) auto
  ultimately show ?case by simp
qed

lemma sentenceChunks_bounds:
  "sorted_wrt (<) (map start (sentenceChunks m)) \<and>
   list_all (\<lambda>c. snd m \<le> start c \<and> start c < snd m + length (fst m) \<and>
                  wordOrShort (chunk_text c)) (sentenceChunks m)"
proof -
  let ?sentence = "trim (fst m)"
  have le: "length ?sentence \<le> length (fst m)" by (rule length_trim_le)
  show ?thesis
  proof (cases "?sentence = []")
    case True
    then show ?thesis by (simp add: sentenceChunks_def)
  next
    case False
    then have pos: "0 < length ?sentence" by simp
    show ?thesis
    proof (cases "length ?sentence \<le> MAX_CHUNK_LENGTH")
      case True
      have "sentenceChunks m = [\<lparr>chunk_text = ?sentence, start = snd m\<rparr>]"
        using True False by (simp add: sentenceChunks_def)
      moreover have "0 < length (fst m)" using pos le by linarith
      ultimately show ?thesis using True False by (simp add: wordOrShort_def)
    next
      case long: False
      have eq: "sentenceChunks m = splitLongSentence ?sentence (snd m)"
        using long False by (simp add: sentenceChunks_def)
      show ?thesis
        unfolding eq
        using splitLongSentence_starts [of ?sentence "snd m"]
          splitLongSentence_texts [of ?sentence "snd m"] le
        by (auto simp: list_all_iff)
    qed
  qed
qed

lemma concat_sentenceChunks_sorted:
  "matchesInOrder i ms \<Longrightarrow>
   sorted_wrt (<) (map start (concat (map sentenceChunks ms))) \<and>
   list_all (\<lambda>c. i \<le> start c) (concat (map sentenceChunks ms))"
proof (induction ms arbitrary: i)
  case Nil
  show ?case by simp
next
  case (Cons m ms)
  from Cons.prems have i: "i \<le> snd m" and rest: "matchesInOrder (snd m + length (fst m)) ms"
    by simp_all
  note ih = Cons.IH [OF rest]
  note b = sentenceChunks_bounds [of m]
  have cross: "\<forall>x\<in>set (sentenceChunks m). \<forall>y\<in>set (concat (map sentenceChunks ms)).
                 start x < start y"
  proof (intro ballI)
    fix x y assume "x \<in> set (sentenceChunks m)" "y \<in> set (concat (map sentenceChunks ms))"
    then have "start x < snd m + length (fst m)" "snd m + length (fst m) \<le> start y"
      using b ih unfolding list_all_iff by blast+
    then show "start x < start y" by linarith
  qed
  have low: "list_all (\<lambda>c. i \<le> start c) (sentenceChunks m @ concat (map sentenceChunks ms))"
    using b ih i unfolding list_all_iff by fastforce
  have "sorted_wrt (<) (map start (sentenceChunks m @ concat (map sentenceChunks ms)))"
    using b ih cross by (simp add: sorted_wrt_append)
  with low show ?case by simp
qed

lemma concat_sentenceChunks_texts:
  "list_all (\<lambda>c. wordOrShort (chunk_text c)) (concat (map sentenceChunks ms))"
  using sentenceChunks_bounds unfolding list_all_iff by fastforce


lemma chunkText_blank: "trim text = [] \<Longrightarrow> chunkText text = []"
  by (simp add: chunkText_def normalize_eq_Nil)


lemma chunkText_long_word:
  "chunkText (replicate 221 0x61) = [\<lparr>chunk_text = replicate 221 0x61, start = 0\<rparr>]"
  by code_simp

text \<open>
  C2, as stated, fails: a word of 221 code units is not split, and becomes a chunk
  longer than \<open>MAX_CHUNK_LENGTH\<close>.
\<close>

theorem chunkText_bounds_counterexample:
  "\<not> list_all (\<lambda>c. length (chunk_text c) \<le> 220) (chunkText (replicate 221 0x61))"
  by (simp add: chunkText_long_word)

text \<open>
  C2, amended.  For every input text, the start offsets of the chunks returned by
  \<open>chunkText\<close> are strictly increasing, and every chunk text is non-empty and either has
  at most 220 code units or is a single word (it contains no whitespace): text is
  split between words only.
\<close>

theorem chunkText_bounds:
  "sorted_wrt (<) (map start (chunkText text)) \<and>
   list_all (\<lambda>c. chunk_text c \<noteq> [] \<and>
                  (length (chunk_text c) \<le> 220 \<or> list_all (\<lambda>x. \<not> isWhitespace x) (chunk_text c)))
     (chunkText text)"
proof -
  let ?n = "normalize text"
  let ?chunks = "concat (map sentenceChunks (sentenceMatches ?n 0))"
  have good: "wordOrShort t \<longleftrightarrow>
      t \<noteq> [] \<and> (length t \<le> 220 \<or> list_all (\<lambda>x. \<not> isWhitespace x) t)" for t
    by (simp add: wordOrShort_def MAX_CHUNK_LENGTH_def)
  have a: "sorted_wrt (<) (map start ?chunks)"
    using concat_sentenceChunks_sorted [OF sentenceMatches_in_order] by blast
  have b: "list_all (\<lambda>c. wordOrShort (chunk_text c)) ?chunks"
    by (rule concat_sentenceChunks_texts)
  have c: "sorted_wrt (<) (map start (splitLongSentence ?n 0))"
    using splitLongSentence_starts [of ?n 0] by blast
  have d: "list_all (\<lambda>c. wordOrShort (chunk_text c)) (splitLongSentence ?n 0)"
    by (rule splitLongSentence_texts)
  have "sorted_wrt (<) (map start (chunkText text)) \<and>
        list_all (\<lambda>c. wordOrShort (chunk_text c)) (chunkText text)"
    using a b c d by (simp add: chunkText_def Let_def)
  then show ?thesis unfolding good .
qed

theorem chunkText_bounds_witness:
  "chunkText (replicate 221 0x61) = [\<lparr>chunk_text = replicate 221 0x61, start = 0\<rparr>] \<and>
   sorted_wrt (<) (map start (chunkText (replicate 221 0x61))) \<and>
   list_all (\<lambda>c. chunk_text c \<noteq> [] \<and>
                  (length (chunk_text c) \<le> 220 \<or> list_all (\<lambda>x. \<not> isWhitespace x) (chunk_text c)))
     (chunkText (replicate 221 0x61))"
  using chunkText_long_word chunkText_bounds [of "replicate 221 0x61"] by (intro conjI) blast+

section \<open>Properties of the speech engine\<close>

lemma boundaryIndices_append [simp]:
  "boundaryIndices (xs @ ys) = boundaryIndices xs @ boundaryIndices ys"
  by (induction xs rule: boundaryIndices.induct) simp_all

lemma submissions_append [simp]: "submissions (xs @ ys) = submissions xs @ submissions ys"
  by (induction xs rule: submissions.induct) simp_all

lemma endCalls_append [simp]: "endCalls (xs @ ys) = endCalls xs @ endCalls ys"
  by (induction xs rule: endCalls.induct) simp_all

lemma withoutBoundaries_append [simp]:
  "withoutBoundaries (xs @ ys) = withoutBoundaries xs @ withoutBoundaries ys"
  by (induction xs rule: withoutBoundaries.induct) simp_all

lemma newEffects_append: "effects s' = effects s @ new \<Longrightarrow> newEffects s s' = new"
  by (simp add: newEffects_def)

text \<open>Each operation appends to the effects; what it appends, and what it does to the
  refs.\<close>

lemma emitProgress_effects:
  "effects (emitProgress u r s) =
     effects s @ (if lastCharIndexRef s \<le> start (chunk u) + clampRelative (chunk u) r
                  then [OnBoundary (baseOptions u) (start (chunk u) + clampRelative (chunk u) r)]
                  else [])"
  by (simp add: emitProgress_def emit_def Let_def)

lemma emitProgress_last:
  "lastCharIndexRef (emitProgress u r s) =
     max (lastCharIndexRef s) (start (chunk u) + clampRelative (chunk u) r)"
  by (simp add: emitProgress_def emit_def Let_def)

lemma emitProgress_other [simp]:
  "queueRef (emitProgress u r s) = queueRef s"
  "activeUtteranceRef (emitProgress u r s) = activeUtteranceRef s"
  "progressTimerRef (emitProgress u r s) = progressTimerRef s"
  "lastSpeakOptionsRef (emitProgress u r s) = lastSpeakOptionsRef s"
  "sourceTextRef (emitProgress u r s) = sourceTextRef s"
  by (simp_all add: emitProgress_def emit_def Let_def)

lemma playQueue_effects:
  "effects (playQueue opts s) =
     effects s @ (case queueRef s of [] \<Rightarrow> [OnEnd opts]
                  | next # rest \<Rightarrow> [SynthSpeak \<lparr>chunk = next, baseOptions = opts\<rparr>])"
  by (simp add: playQueue_def emit_def Let_def split: list.split)

lemma playQueue_refs [simp]:
  "queueRef (playQueue opts s) = tl (queueRef s)"
  "activeUtteranceRef (playQueue opts s) =
     (case queueRef s of [] \<Rightarrow> None | next # rest \<Rightarrow> Some \<lparr>chunk = next, baseOptions = opts\<rparr>)"
  "lastCharIndexRef (playQueue opts s) = lastCharIndexRef s"
  "progressTimerRef (playQueue opts s) = progressTimerRef s"
  "lastSpeakOptionsRef (playQueue opts s) = lastSpeakOptionsRef s"
  "sourceTextRef (playQueue opts s) = sourceTextRef s"
  by (simp_all add: playQueue_def emit_def Let_def split: list.split)

lemma startQueue_effects:
  "effects (startQueue text opts off s) =
     effects s @ (case chunkText text of [] \<Rightarrow> []
                  | c # cs \<Rightarrow> [SynthSpeak \<lparr>chunk = c\<lparr>start := start c + off\<rparr>, baseOptions = opts\<rparr>])"
  by (simp add: startQueue_def playQueue_effects Let_def split: list.split)

lemma startQueue_refs [simp]:
  "lastCharIndexRef (startQueue text opts off s) = lastCharIndexRef s"
  "progressTimerRef (startQueue text opts off s) = progressTimerRef s"
  "lastSpeakOptionsRef (startQueue text opts off s) = lastSpeakOptionsRef s"
  "sourceTextRef (startQueue text opts off s) = sourceTextRef s"
  by (simp_all add: startQueue_def Let_def)



lemma advancesI:
  "effects s' = effects s @ new \<Longrightarrow> sorted (lastCharIndexRef s # boundaryIndices new) \<Longrightarrow>
   lastCharIndexRef s' = last (lastCharIndexRef s # boundaryIndices new) \<Longrightarrow> advances s s'"
  unfolding advances_def by blast

lemma advances_quiet:
  "effects s' = effects s @ new \<Longrightarrow> boundaryIndices new = [] \<Longrightarrow>
   lastCharIndexRef s' = lastCharIndexRef s \<Longrightarrow> advances s s'"
  by (rule advancesI [where new = new]) simp_all

lemma advances_refl: "advances s s"
  by (rule advances_quiet [where new = "[]"]) simp_all

lemma sorted_chain:
  "sorted (l # as) \<Longrightarrow> sorted (last (l # as) # bs) \<Longrightarrow> sorted (l # as @ bs)"
proof (induction as arbitrary: l)
  case Nil
  then show ?case by simp
next
  case (Cons a as)
  from Cons.prems have 1: "sorted (a # as)" and 2: "sorted (last (a # as) # bs)"
    and 3: "l \<le> a"
    by simp_all
  have "sorted (a # as @ bs)" using 1 2 by (rule Cons.IH)
  with 3 show ?case by (fastforce intro: order_trans)
qed

lemma advances_trans:
  assumes "advances s s'" and "advances s' s''"
  shows "advances s s''"
proof -
  from assms(1) obtain new where n: "effects s' = effects s @ new"
    "sorted (lastCharIndexRef s # boundaryIndices new)"
    "lastCharIndexRef s' = last (lastCharIndexRef s # boundaryIndices new)"
    unfolding advances_def by blast
  from assms(2) obtain new' where n': "effects s'' = effects s' @ new'"
    "sorted (lastCharIndexRef s' # boundaryIndices new')"
    "lastCharIndexRef s'' = last (lastCharIndexRef s' # boundaryIndices new')"
    unfolding advances_def by blast
  have "sorted (lastCharIndexRef s # boundaryIndices new @ boundaryIndices new')"
    using n(2) n'(2) unfolding n(3) by (rule sorted_chain)
  moreover have "lastCharIndexRef s'' =
      last (lastCharIndexRef s # boundaryIndices new @ boundaryIndices new')"
    unfolding n'(3) n(3) by (cases "boundaryIndices new'") simp_all
  ultimately show ?thesis
    by (intro advancesI [where new = "new @ new'"]) (simp_all add: n(1) n'(1))
qed

lemma advances_emitProgress: "advances s (emitProgress u r s)"
  by (rule advancesI [OF emitProgress_effects]) (simp_all add: emitProgress_last)

lemma advances_playQueue: "advances s (playQueue opts s)"
  by (rule advances_quiet [OF playQueue_effects]) (simp_all split: list.split)

lemma advances_startQueue: "advances s (startQueue text opts off s)"
  by (rule advances_quiet [OF startQueue_effects]) (simp_all split: list.split)

lemma advances_cong:
  "advances s s' \<Longrightarrow> effects t = effects s \<Longrightarrow> lastCharIndexRef t = lastCharIndexRef s \<Longrightarrow>
   advances t s'"
  by (simp add: advances_def)

lemma advances_cong2:
  "advances s s' \<Longrightarrow> effects t' = effects s' \<Longrightarrow> lastCharIndexRef t' = lastCharIndexRef s' \<Longrightarrow>
   advances s t'"
  by (simp add: advances_def)

lemma advances_step:
  assumes "\<not> sessionBoundary e"
  shows "advances s (step s e)"
proof (cases e)
  case (Speak x y)
  with assms show ?thesis by simp
next
  case Stop
  with assms show ?thesis by simp
next
  case (Pause p sp)
  show ?thesis unfolding Pause
    by (auto simp: pause_def emit_def intro!: advances_refl advances_quiet [where new = "[SynthPause]"])
next
  case (Resume p sp rp)
  have "advances s (startQueue t opts off ((emit SynthCancel s)\<lparr>isPaused := False\<rparr>))" for t opts off
    by (rule advances_trans [OF _ advances_startQueue])
       (rule advances_quiet [where new = "[SynthCancel]"], simp_all add: emit_def)
  then show ?thesis unfolding Resume
    by (auto simp: resume_def emit_def Let_def split: option.split
          intro!: advances_refl advances_quiet [where new = "[SynthResume]"])
next
  case (SyncState p sp)
  show ?thesis unfolding SyncState
    by (auto simp: syncState_def intro!: advances_quiet [where new = "[]"])
next
  case (UtteranceStart u)
  have "advances s (emitProgress u 0 ((clearProgressTimer s)\<lparr>isSpeaking := True, isPaused := False\<rparr>))"
    by (rule advances_cong [OF advances_emitProgress]) (simp_all add: clearProgressTimer_def)
  then show ?thesis unfolding UtteranceStart
    by (auto simp: onstart_def elim!: advances_cong2)
next
  case (UtteranceBoundary u i)
  show ?thesis unfolding UtteranceBoundary by (simp add: onboundary_def advances_emitProgress)
next
  case (UtterancePause u)
  show ?thesis unfolding UtterancePause
    by (auto simp: onpause_def intro!: advances_quiet [where new = "[]"])
next
  case (UtteranceResume u)
  show ?thesis unfolding UtteranceResume
    by (auto simp: onresume_def intro!: advances_quiet [where new = "[]"])
next
  case (UtteranceEnd u)
  have "advances s (clearProgressTimer (emitProgress u (int (length (chunk_text (chunk u))) - 1) s))"
    by (rule advances_cong2 [OF advances_emitProgress]) (simp_all add: clearProgressTimer_def)
  then show ?thesis unfolding UtteranceEnd
    by (auto simp: onend_def intro: advances_trans [OF _ advances_playQueue])
next
  case (UtteranceError u)
  have "advances s (clearProgressTimer s)"
    by (rule advances_quiet [where new = "[]"]) (simp_all add: clearProgressTimer_def)
  then show ?thesis unfolding UtteranceError
    by (auto simp: onerror_def intro: advances_trans [OF _ advances_playQueue])
next
  case (TimerTick sp p since est)
  show ?thesis unfolding TimerTick
    by (auto simp: timerTick_def advances_refl advances_emitProgress split: option.split)
qed

lemma advances_run:
  "\<forall>e\<in>set evs. \<not> sessionBoundary e \<Longrightarrow> advances s (run s evs)"
proof (induction evs arbitrary: s)
  case Nil
  show ?case by (simp add: run_def advances_refl)
next
  case (Cons e evs)
  have "advances s (step s e)" using Cons.prems by (simp add: advances_step)
  moreover have "advances (step s e) (run (step s e) evs)" using Cons by simp
  ultimately show ?case by (simp add: run_def advances_trans)
qed


lemma clampRelative_bounds:
  "clampRelative c r \<le> length (chunk_text c) - 1"
  "0 \<le> r \<Longrightarrow> r \<le> int (length (chunk_text c)) - 1 \<Longrightarrow> int (clampRelative c r) = r"
  by (auto simp: clampRelative_def)

lemma speak_effects:
  assumes "trim text \<noteq> []"
  shows "effects (speak text opts s) =
           effects s @ SynthCancel # OnStart opts #
             (case chunkText text of [] \<Rightarrow> []
              | c # cs \<Rightarrow> [SynthSpeak \<lparr>chunk = c\<lparr>start := start c + 0\<rparr>, baseOptions = opts\<rparr>])"
    and "lastCharIndexRef (speak text opts s) = 0"
    and "lastSpeakOptionsRef (speak text opts s) = Some opts"
  using assms by (simp_all add: speak_def startQueue_effects emit_def)

lemma reportsTo_sorted: "sorted (boundaryIndices es) \<Longrightarrow> sorted (reportsTo opts es)"
proof (induction es rule: boundaryIndices.induct)
  case 1
  show ?case by simp
next
  case (2 given i es)
  have sub: "set (reportsTo opts xs) \<subseteq> set (boundaryIndices xs)" for xs
    by (induction xs rule: boundaryIndices.induct) auto
  from 2 show ?case using sub [of es] by auto
qed simp_all

text \<open>
  C3.  Within one session, that is from a call of \<open>speak\<close> (with a text that is not
  blank) through any events other than a further \<open>speak\<close> or \<open>stop\<close>, the indices passed
  to \<open>onBoundary\<close> (all of them, and so those passed to the callback of this session)
  are non-decreasing in the order of the calls, and \<open>lastCharIndexRef\<close>
  is the last index reported (\<open>0\<close> before the first report).  Each report comes from
  \<open>emitProgress\<close>, which clamps the relative offset to \<open>[0, chunk.text.length - 1]\<close>, adds
  the start of the chunk, and calls \<open>onBoundary\<close> exactly when the sum is not below
  \<open>lastCharIndexRef\<close>; a smaller value leaves no effect.
\<close>

theorem session_reports_monotone:
  assumes "trim text \<noteq> []" and "\<forall>e\<in>set evs. \<not> sessionBoundary e"
  shows "(let s1 = run (speak text opts s0) evs;
              reports = boundaryIndices (newEffects s0 s1)
          in sorted reports \<and> sorted (reportsTo opts (newEffects s0 s1)) \<and>
             lastCharIndexRef s1 = last (0 # reports)) \<and>
         (\<forall>u r s. effects (emitProgress u r s) =
            effects s @
              (if lastCharIndexRef s \<le> start (chunk u) + clampRelative (chunk u) r
               then [OnBoundary (baseOptions u) (start (chunk u) + clampRelative (chunk u) r)]
               else [])) \<and>
         (\<forall>c r. clampRelative c r \<le> length (chunk_text c) - 1 \<and>
            (0 \<le> r \<and> r \<le> int (length (chunk_text c)) - 1 \<longrightarrow> int (clampRelative c r) = r))"
proof -
  let ?s = "speak text opts s0"
  obtain pre where pre: "effects ?s = effects s0 @ pre" "boundaryIndices pre = []"
    using speak_effects(1) [OF assms(1), of opts s0] by (auto split: list.split)
  have zero: "lastCharIndexRef ?s = 0" by (rule speak_effects(2) [OF assms(1)])
  from advances_run [OF assms(2), of ?s]
  obtain new where new: "effects (run ?s evs) = effects ?s @ new"
    "sorted (lastCharIndexRef ?s # boundaryIndices new)"
    "lastCharIndexRef (run ?s evs) = last (lastCharIndexRef ?s # boundaryIndices new)"
    unfolding advances_def by blast
  have "newEffects s0 (run ?s evs) = pre @ new"
    by (rule newEffects_append) (simp add: new(1) pre(1))
  then have "boundaryIndices (newEffects s0 (run ?s evs)) = boundaryIndices new"
    by (simp add: pre(2))
  moreover have "sorted (boundaryIndices new)" using new(2) by simp
  ultimately have first: "let s1 = run ?s evs; reports = boundaryIndices (newEffects s0 s1)
      in sorted reports \<and> sorted (reportsTo opts (newEffects s0 s1)) \<and>
         lastCharIndexRef s1 = last (0 # reports)"
    using new(3) zero by (simp add: Let_def reportsTo_sorted)
  show ?thesis
    using first emitProgress_effects clampRelative_bounds by blast
qed

theorem session_reports_monotone_witness:
  "trim (utf16 ''A. B.'') \<noteq> [] \<and> list_all (\<lambda>e. \<not> sessionBoundary e) exampleEvents \<and>
   boundaryIndices (newEffects initialEngine
      (run (speak (utf16 ''A. B.'') 1 initialEngine) exampleEvents)) = [0, 1, 1, 1, 3, 4] \<and>
   sorted (boundaryIndices (newEffects initialEngine
      (run (speak (utf16 ''A. B.'') 1 initialEngine) exampleEvents))) \<and>
   sorted (reportsTo 1 (newEffects initialEngine
      (run (speak (utf16 ''A. B.'') 1 initialEngine) exampleEvents))) \<and>
   lastCharIndexRef (run (speak (utf16 ''A. B.'') 1 initialEngine) exampleEvents) = 4"
proof -
  let ?s1 = "run (speak (utf16 ''A. B.'') 1 initialEngine) exampleEvents"
  have h1: "trim (utf16 ''A. B.'') \<noteq> []" by code_simp
  have h2': "list_all (\<lambda>e. \<not> sessionBoundary e) exampleEvents" by code_simp
  then have h2: "\<forall>e\<in>set exampleEvents. \<not> sessionBoundary e" by (simp add: list_all_iff)
  have ev: "boundaryIndices (newEffects initialEngine ?s1) = [0, 1, 1, 1, 3, 4]" by code_simp
  note th = session_reports_monotone [OF h1 h2, of 1 initialEngine, THEN conjunct1,
      unfolded Let_def]
  have srt: "sorted (boundaryIndices (newEffects initialEngine ?s1))"
    using th by (rule conjunct1)
  have own: "sorted (reportsTo 1 (newEffects initialEngine ?s1))"
    using th by blast
  have "lastCharIndexRef ?s1 = last (0 # boundaryIndices (newEffects initialEngine ?s1))"
    using th by blast
  then have lst: "lastCharIndexRef ?s1 = 4" unfolding ev by simp
  show ?thesis using h1 h2' ev srt own lst by (intro conjI)
qed


lemma deliver_active:
  assumes "activeUtteranceRef s = Some u"
  shows "\<exists>reports. effects (deliver s out) =
            effects s @ reports @
              (case queueRef s of [] \<Rightarrow> [OnEnd (baseOptions u)]
               | c # cs \<Rightarrow> [SynthSpeak \<lparr>chunk = c, baseOptions = baseOptions u\<rparr>]) \<and>
            submissions reports = [] \<and> endCalls reports = []"
    and "queueRef (deliver s out) = tl (queueRef s)"
    and "activeUtteranceRef (deliver s out) =
           (case queueRef s of [] \<Rightarrow> None
            | c # cs \<Rightarrow> Some \<lparr>chunk = c, baseOptions = baseOptions u\<rparr>)"
proof -
  show "\<exists>reports. effects (deliver s out) =
            effects s @ reports @
              (case queueRef s of [] \<Rightarrow> [OnEnd (baseOptions u)]
               | c # cs \<Rightarrow> [SynthSpeak \<lparr>chunk = c, baseOptions = baseOptions u\<rparr>]) \<and>
            submissions reports = [] \<and> endCalls reports = []"
  proof (cases out)
    case Completed
    let ?r = "int (length (chunk_text (chunk u))) - 1"
    let ?reports = "if lastCharIndexRef s \<le> start (chunk u) + clampRelative (chunk u) ?r
                  then [OnBoundary (baseOptions u) (start (chunk u) + clampRelative (chunk u) ?r)]
                  else []"
    have "effects (deliver s out) =
            effects s @ ?reports @
              (case queueRef s of [] \<Rightarrow> [OnEnd (baseOptions u)]
               | c # cs \<Rightarrow> [SynthSpeak \<lparr>chunk = c, baseOptions = baseOptions u\<rparr>])"
      using assms Completed
      by (simp add: deliver_def onend_def playQueue_effects clearProgressTimer_def
            emitProgress_effects)
    moreover have "submissions ?reports = [] \<and> endCalls ?reports = []" by simp
    ultimately show ?thesis by blast
  next
    case Errored
    have "effects (deliver s out) =
            effects s @ [] @
              (case queueRef s of [] \<Rightarrow> [OnEnd (baseOptions u)]
               | c # cs \<Rightarrow> [SynthSpeak \<lparr>chunk = c, baseOptions = baseOptions u\<rparr>])"
      using assms Errored
      by (simp add: deliver_def onerror_def playQueue_effects clearProgressTimer_def)
    moreover have "submissions ([] :: 'a Effect list) = [] \<and> endCalls ([] :: 'a Effect list) = []"
      by simp
    ultimately show ?thesis by blast
  qed
  show "queueRef (deliver s out) = tl (queueRef s)"
    using assms by (cases out) (simp_all add: deliver_def onend_def onerror_def clearProgressTimer_def)
  show "activeUtteranceRef (deliver s out) =
           (case queueRef s of [] \<Rightarrow> None
            | c # cs \<Rightarrow> Some \<lparr>chunk = c, baseOptions = baseOptions u\<rparr>)"
    using assms by (cases out) (simp_all add: deliver_def onend_def onerror_def clearProgressTimer_def)
qed

lemma completionRun_Cons: "completionRun s (out # outs) = completionRun (deliver s out) outs"
  by (simp add: completionRun_def)

lemma completionRun_drains:
  assumes "activeUtteranceRef s = Some u" and "length outs = Suc (length (queueRef s))"
  shows "\<exists>new. effects (completionRun s outs) = effects s @ new \<and>
           submissions new = map (\<lambda>c. \<lparr>chunk = c, baseOptions = baseOptions u\<rparr>) (queueRef s) \<and>
           endCalls new = [baseOptions u] \<and>
           queueRef (completionRun s outs) = [] \<and>
           activeUtteranceRef (completionRun s outs) = None"
  using assms
proof (induction outs arbitrary: s u)
  case Nil
  then show ?case by simp
next
  case (Cons out outs)
  let ?s' = "deliver s out"
  from deliver_active(1) [OF Cons.prems(1), of out]
  obtain reports where rep: "effects ?s' =
      effects s @ reports @
        (case queueRef s of [] \<Rightarrow> [OnEnd (baseOptions u)]
         | c # cs \<Rightarrow> [SynthSpeak \<lparr>chunk = c, baseOptions = baseOptions u\<rparr>])"
    "submissions reports = []" "endCalls reports = []"
    by blast
  note q = deliver_active(2) [OF Cons.prems(1), of out]
  note a = deliver_active(3) [OF Cons.prems(1), of out]
  show ?case
  proof (cases "queueRef s")
    case Nil
    with Cons.prems(2) have "outs = []" by simp
    then have "completionRun s (out # outs) = ?s'" by (simp add: completionRun_def)
    moreover have "effects ?s' = effects s @ (reports @ [OnEnd (baseOptions u)])"
      using rep(1) Nil by simp
    moreover have "submissions (reports @ [OnEnd (baseOptions u)]) = []"
      "endCalls (reports @ [OnEnd (baseOptions u)]) = [baseOptions u]"
      using rep(2,3) by simp_all
    ultimately show ?thesis using Nil q a by auto
  next
    case (Cons c cs)
    let ?u' = "\<lparr>chunk = c, baseOptions = baseOptions u\<rparr>"
    have a': "activeUtteranceRef ?s' = Some ?u'" using a Cons by simp
    have q': "queueRef ?s' = cs" using q Cons by simp
    have l': "length outs = Suc (length (queueRef ?s'))"
      using Cons.prems(2) Cons q' \<open>length (out # outs) = Suc (length (queueRef s))\<close> by simp
    from Cons.IH [OF a' l']
    obtain new where new: "effects (completionRun ?s' outs) = effects ?s' @ new"
      "submissions new = map (\<lambda>c. \<lparr>chunk = c, baseOptions = baseOptions u\<rparr>) cs"
      "endCalls new = [baseOptions u]"
      "queueRef (completionRun ?s' outs) = []"
      "activeUtteranceRef (completionRun ?s' outs) = None"
      using q' by auto
    have "effects (completionRun s (out # outs)) =
            effects s @ (reports @ [SynthSpeak ?u'] @ new)"
      using new(1) rep(1) Cons by (simp add: completionRun_Cons)
    moreover have "submissions (reports @ [SynthSpeak ?u'] @ new) =
        map (\<lambda>c. \<lparr>chunk = c, baseOptions = baseOptions u\<rparr>) (queueRef s)"
      using rep(2) new(2) Cons by simp
    moreover have "endCalls (reports @ [SynthSpeak ?u'] @ new) = [baseOptions u]"
      using rep(3) new(3) by simp
    ultimately show ?thesis
      using new(4,5) by (auto simp: completionRun_Cons)
  qed
qed


text \<open>
  C8.  An \<open>error\<close> event on the active utterance advances the queue exactly as its \<open>end\<close>
  event does: the same queue, the same next utterance handed to the backend, the same
  effects apart from the final progress report that only \<open>onend\<close> makes.  Whatever
  mixture of errors and completions ends the utterances of a session, every remaining
  chunk of the queue is handed to the backend, in order and with the options of the
  session, and then \<open>onEnd\<close> is called once; nothing else reaches the caller.
\<close>

theorem error_advances_like_completion:
  assumes "activeUtteranceRef s = Some u" and "length outs = Suc (length (queueRef s))"
  shows "queueRef (step s (UtteranceError u)) = queueRef (step s (UtteranceEnd u)) \<and>
         activeUtteranceRef (step s (UtteranceError u)) =
           activeUtteranceRef (step s (UtteranceEnd u)) \<and>
         withoutBoundaries (newEffects s (step s (UtteranceError u))) =
           withoutBoundaries (newEffects s (step s (UtteranceEnd u))) \<and>
         submissions (newEffects s (completionRun s outs)) =
           map (\<lambda>c. \<lparr>chunk = c, baseOptions = baseOptions u\<rparr>) (queueRef s) \<and>
         endCalls (newEffects s (completionRun s outs)) = [baseOptions u] \<and>
         queueRef (completionRun s outs) = [] \<and>
         activeUtteranceRef (completionRun s outs) = None"
proof -
  have 1: "queueRef (step s (UtteranceError u)) = queueRef (step s (UtteranceEnd u))"
    and 2: "activeUtteranceRef (step s (UtteranceError u)) =
           activeUtteranceRef (step s (UtteranceEnd u))"
    by (simp_all add: onerror_def onend_def clearProgressTimer_def)
  have "effects (step s (UtteranceError u)) = effects s @
          (case queueRef s of [] \<Rightarrow> [OnEnd (baseOptions u)]
           | c # cs \<Rightarrow> [SynthSpeak \<lparr>chunk = c, baseOptions = baseOptions u\<rparr>])"
    by (simp add: onerror_def playQueue_effects clearProgressTimer_def)
  then have e1: "withoutBoundaries (newEffects s (step s (UtteranceError u))) =
          (case queueRef s of [] \<Rightarrow> [OnEnd (baseOptions u)]
           | c # cs \<Rightarrow> [SynthSpeak \<lparr>chunk = c, baseOptions = baseOptions u\<rparr>])"
    by (simp add: newEffects_def split: list.split)
  let ?r = "int (length (chunk_text (chunk u))) - 1"
  have "effects (step s (UtteranceEnd u)) = effects s @
          ((if lastCharIndexRef s \<le> start (chunk u) + clampRelative (chunk u) ?r
            then [OnBoundary (baseOptions u) (start (chunk u) + clampRelative (chunk u) ?r)]
            else []) @
          (case queueRef s of [] \<Rightarrow> [OnEnd (baseOptions u)]
           | c # cs \<Rightarrow> [SynthSpeak \<lparr>chunk = c, baseOptions = baseOptions u\<rparr>]))"
    by (simp add: onend_def playQueue_effects clearProgressTimer_def emitProgress_effects)
  then have e2: "withoutBoundaries (newEffects s (step s (UtteranceEnd u))) =
          (case queueRef s of [] \<Rightarrow> [OnEnd (baseOptions u)]
           | c # cs \<Rightarrow> [SynthSpeak \<lparr>chunk = c, baseOptions = baseOptions u\<rparr>])"
    by (simp add: newEffects_def split: list.split)
  from completionRun_drains [OF assms]
  obtain new where new: "effects (completionRun s outs) = effects s @ new"
    "submissions new = map (\<lambda>c. \<lparr>chunk = c, baseOptions = baseOptions u\<rparr>) (queueRef s)"
    "endCalls new = [baseOptions u]"
    "queueRef (completionRun s outs) = []"
    "activeUtteranceRef (completionRun s outs) = None"
    by blast
  have n: "newEffects s (completionRun s outs) = new"
    by (rule newEffects_append [OF new(1)])
  show ?thesis
    using 1 2 e1 e2 new(2-5) unfolding n by simp
qed

theorem error_advances_like_completion_witness:
  "activeUtteranceRef exampleSession = Some utteranceA \<and>
   length [Errored, Errored, Errored] = Suc (length (queueRef exampleSession)) \<and>
   submissions (newEffects exampleSession
      (completionRun exampleSession [Errored, Errored, Errored]))
     = [utteranceB, \<lparr>chunk = \<lparr>chunk_text = utf16 ''C.'', start = 6\<rparr>, baseOptions = 1\<rparr>] \<and>
   endCalls (newEffects exampleSession
      (completionRun exampleSession [Errored, Errored, Errored])) = [1]"
proof -
  let ?s = "exampleSession"
  have h1: "activeUtteranceRef ?s = Some utteranceA" by code_simp
  have h2: "length [Errored, Errored, Errored] = Suc (length (queueRef ?s))" by code_simp
  have q: "map (\<lambda>c. \<lparr>chunk = c, baseOptions = baseOptions utteranceA\<rparr>) (queueRef ?s)
        = [utteranceB, \<lparr>chunk = \<lparr>chunk_text = utf16 ''C.'', start = 6\<rparr>, baseOptions = 1\<rparr>]"
    by code_simp
  have b: "baseOptions utteranceA = 1" by code_simp
  note th = error_advances_like_completion [OF h1 h2]
  have "submissions (newEffects ?s (completionRun ?s [Errored, Errored, Errored])) =
          map (\<lambda>c. \<lparr>chunk = c, baseOptions = baseOptions utteranceA\<rparr>) (queueRef ?s)"
    using th by blast
  then have sub: "submissions (newEffects ?s (completionRun ?s [Errored, Errored, Errored])) =
          [utteranceB, \<lparr>chunk = \<lparr>chunk_text = utf16 ''C.'', start = 6\<rparr>, baseOptions = 1\<rparr>]"
    by (simp only: q)
  have "endCalls (newEffects ?s (completionRun ?s [Errored, Errored, Errored])) =
          [baseOptions utteranceA]"
    using th by blast
  then have ends: "endCalls (newEffects ?s (completionRun ?s [Errored, Errored, Errored])) = [1]"
    by (simp only: b)
  show ?thesis using h1 h2 sub ends by (intro conjI)
qed




lemma onlyFor_Nil [simp]: "onlyFor opts []"
  by (simp add: onlyFor_def)

lemma onlyFor_append [simp]: "onlyFor opts (xs @ ys) \<longleftrightarrow> onlyFor opts xs \<and> onlyFor opts ys"
  by (simp add: onlyFor_def)












section \<open>Joining the chunks\<close>

subsection \<open>Joining with spaces\<close>

lemma concat_spaces: "ys \<noteq> [] \<Longrightarrow> concat (map (\<lambda>y. SPACE # y) ys) = SPACE # joinSpace ys"
  by (cases ys) simp_all

lemma joinSpace_Cons: "ys \<noteq> [] \<Longrightarrow> joinSpace (x # ys) = x @ SPACE # joinSpace ys"
  by (simp add: concat_spaces)

lemma joinSpace_append:
  "xs \<noteq> [] \<Longrightarrow> ys \<noteq> [] \<Longrightarrow> joinSpace (xs @ ys) = joinSpace xs @ SPACE # joinSpace ys"
  by (cases xs) (simp_all add: concat_spaces)

lemma joinSpace_merge: "joinSpace (as @ (u @ SPACE # w) # bs) = joinSpace (as @ u # w # bs)"
  by (cases as) simp_all

lemma joinSpace_eq_Nil: "joinSpace xs = [] \<Longrightarrow> xs = [] \<or> xs = [[]]"
  by (cases xs) (auto simp: concat_eq_Nil_conv)

lemma splitLoop_join:
  "joinSpace (map chunk_text (splitLoop off ws chunks current currentStart cursor)) =
   joinSpace (map chunk_text chunks @ (if current = [] then [] else [current]) @
              filter (\<lambda>w. w \<noteq> []) ws)"
proof (induction ws arbitrary: chunks current currentStart cursor)
  case Nil
  show ?case by simp
next
  case (Cons w ws)
  show ?case
  proof (cases "w = []")
    case True
    then show ?thesis using Cons.IH by simp
  next
    case False
    let ?next = "if current \<noteq> [] then current @ SPACE # w else w"
    show ?thesis
    proof (cases "length ?next \<le> MAX_CHUNK_LENGTH")
      case True
      have "splitLoop off (w # ws) chunks current currentStart cursor =
            splitLoop off ws chunks ?next (if current = [] then off + cursor else currentStart)
              (cursor + (length w + 1))"
        using True False by (simp add: Let_def)
      then have "joinSpace (map chunk_text (splitLoop off (w # ws) chunks current currentStart cursor))
          = joinSpace (map chunk_text chunks @ [?next] @ filter (\<lambda>w. w \<noteq> []) ws)"
        using False by (simp only: Cons.IH) simp
      also have "\<dots> = joinSpace (map chunk_text chunks @ (if current = [] then [] else [current]) @
              filter (\<lambda>w. w \<noteq> []) (w # ws))"
        using False joinSpace_merge [of "map chunk_text chunks" current w "filter (\<lambda>w. w \<noteq> []) ws"]
        by simp
      finally show ?thesis .
    next
      case long: False
      let ?chunks = "if current \<noteq> [] then chunks @ [\<lparr>chunk_text = current, start = currentStart\<rparr>]
                     else chunks"
      have "splitLoop off (w # ws) chunks current currentStart cursor =
            splitLoop off ws ?chunks w (off + cursor) (cursor + (length w + 1))"
        using long False by (simp add: Let_def)
      then have "joinSpace (map chunk_text (splitLoop off (w # ws) chunks current currentStart cursor))
          = joinSpace (map chunk_text ?chunks @ [w] @ filter (\<lambda>w. w \<noteq> []) ws)"
        using False by (simp only: Cons.IH) simp
      also have "\<dots> = joinSpace (map chunk_text chunks @ (if current = [] then [] else [current]) @
              filter (\<lambda>w. w \<noteq> []) (w # ws))"
        using False by simp
      finally show ?thesis .
    qed
  qed
qed

subsection \<open>Spaced texts\<close>

lemma terminator_not_whitespace: "isTerminator c \<Longrightarrow> \<not> isWhitespace c"
  by (auto simp: isTerminator_def isWhitespace_def)

lemma spaced_suffix: "spaced (xs @ ys) \<Longrightarrow> ys \<noteq> [] \<Longrightarrow> spaced ys"
  by (simp add: spaced_def successively_append_iff)

lemma spaced_prefix: "spaced (xs @ ys) \<Longrightarrow> xs \<noteq> [] \<Longrightarrow> \<not> isWhitespace (last xs) \<Longrightarrow> spaced xs"
  by (simp add: spaced_def successively_append_iff)

lemma spaced_whitespace_head:
  assumes "spaced (c # cs)" and "isWhitespace c"
  shows "c = SPACE \<and> cs \<noteq> [] \<and> \<not> isWhitespace (hd cs)"
proof (cases cs)
  case Nil
  with assms show ?thesis by (simp add: spaced_def)
next
  case (Cons b bs)
  with assms show ?thesis by (simp add: spaced_def)
qed

lemma trim_strip:
  assumes "xs \<noteq> []" and "\<not> isWhitespace (hd xs)" and "\<not> isWhitespace (last xs)"
    and "\<forall>c\<in>set ps. isWhitespace c"
  shows "trim (xs @ ps) = xs"
proof -
  have 1: "dropWhile isWhitespace (xs @ ps) = xs @ ps"
    using assms(1,2) by (simp add: dropWhile_eq_self_iff)
  have 2: "dropWhile isWhitespace (rev ps @ rev xs) = dropWhile isWhitespace (rev xs)"
    by (rule dropWhile_append2) (use assms(4) in auto)
  have 3: "dropWhile isWhitespace (rev xs) = rev xs"
    using assms(1,3) by (simp add: dropWhile_eq_self_iff hd_rev)
  show ?thesis unfolding trim_def 1 rev_append 2 3 by simp
qed

lemma trim_decompose:
  "\<exists>pre post. s = pre @ trim s @ post \<and>
     (trim s = [] \<or> (\<not> isWhitespace (hd (trim s)) \<and> \<not> isWhitespace (last (trim s))))"
proof -
  let ?d = "dropWhile isWhitespace s"
  let ?e = "dropWhile isWhitespace (rev ?d)"
  have t: "trim s = rev ?e" by (simp add: trim_def)
  have "rev ?d = takeWhile isWhitespace (rev ?d) @ ?e" by simp
  then have "?d = rev ?e @ rev (takeWhile isWhitespace (rev ?d))"
    by (metis rev_append rev_rev_ident)
  then have d: "?d = trim s @ rev (takeWhile isWhitespace (rev ?d))" unfolding t .
  have "s = takeWhile isWhitespace s @ ?d" by simp
  then have s: "s = takeWhile isWhitespace s @ trim s @ rev (takeWhile isWhitespace (rev ?d))"
    using d by simp
  have "\<not> isWhitespace (hd (trim s)) \<and> \<not> isWhitespace (last (trim s))" if ne: "trim s \<noteq> []"
  proof
    from ne have e: "?e \<noteq> []" unfolding t by simp
    then have "\<not> isWhitespace (hd ?e)" by (rule hd_dropWhile)
    then show "\<not> isWhitespace (last (trim s))" unfolding t by (simp add: last_rev)
    have dn: "?d \<noteq> []" using d ne by (metis Nil_is_append_conv)
    then have "\<not> isWhitespace (hd ?d)" by (rule hd_dropWhile)
    moreover have "hd ?d = hd (trim s)" using d ne by (metis hd_append2)
    ultimately show "\<not> isWhitespace (hd (trim s))" by simp
  qed
  then show ?thesis using s by blast
qed

lemma replaceWhitespaceRuns_head:
  "s \<noteq> [] \<Longrightarrow> \<not> isWhitespace (hd s) \<Longrightarrow>
   replaceWhitespaceRuns s \<noteq> [] \<and> hd (replaceWhitespaceRuns s) = hd s"
  by (cases s) simp_all

lemma replaceWhitespaceRuns_successively:
  "successively (\<lambda>a b. isWhitespace a \<longrightarrow> a = SPACE \<and> \<not> isWhitespace b)
     (replaceWhitespaceRuns s)"
proof (induction s rule: replaceWhitespaceRuns.induct)
  case 1
  show ?case by simp
next
  case (2 c cs)
  show ?case
  proof (cases "isWhitespace c")
    case True
    let ?d = "dropWhile isWhitespace cs"
    have "replaceWhitespaceRuns ?d = [] \<or> \<not> isWhitespace (hd (replaceWhitespaceRuns ?d))"
    proof (cases "?d = []")
      case empty: True
      have "replaceWhitespaceRuns ?d = []" unfolding empty by simp
      then show ?thesis ..
    next
      case more: False
      then have "\<not> isWhitespace (hd ?d)" by (rule hd_dropWhile)
      with replaceWhitespaceRuns_head [OF more] show ?thesis by simp
    qed
    then show ?thesis using True 2 by (auto simp: successively_Cons)
  next
    case False
    then show ?thesis using 2 by (simp add: successively_Cons)
  qed
qed

lemma spaced_normalize:
  "spaced (normalize text) \<and>
   (normalize text = [] \<or> \<not> isWhitespace (hd (normalize text)))"
proof -
  let ?r = "replaceWhitespaceRuns text"
  from trim_decompose [of ?r] obtain pre post where
    d: "?r = pre @ trim ?r @ post"
    and e: "trim ?r = [] \<or> (\<not> isWhitespace (hd (trim ?r)) \<and> \<not> isWhitespace (last (trim ?r)))"
    by blast
  have "successively (\<lambda>a b. isWhitespace a \<longrightarrow> a = SPACE \<and> \<not> isWhitespace b)
          (pre @ trim ?r @ post)"
    using replaceWhitespaceRuns_successively [of "text"] d by simp
  then have "successively (\<lambda>a b. isWhitespace a \<longrightarrow> a = SPACE \<and> \<not> isWhitespace b) (trim ?r)"
    by (simp add: successively_append_iff)
  with e show ?thesis by (auto simp: normalize_def spaced_def)
qed


subsection \<open>Words of a spaced text\<close>

lemma splitWhitespace_join:
  "spaced s \<Longrightarrow> s \<noteq> [] \<Longrightarrow> \<not> isWhitespace (hd s) \<Longrightarrow>
   joinSpace (filter (\<lambda>w. w \<noteq> []) (splitWhitespace s)) = s"
proof (induction s rule: splitWhitespace_induct)
  case (last s)
  from last.hyps have tw: "takeWhile (\<lambda>c. \<not> isWhitespace c) s = s"
    by (simp only: dropWhile_eq_Nil_conv takeWhile_eq_all_conv)
  show ?case
    unfolding splitWhitespace_last [OF last.hyps] tw using last.prems(2) by simp
next
  case (more s)
  let ?w = "takeWhile (\<lambda>c. \<not> isWhitespace c) s"
  let ?r = "dropWhile (\<lambda>c. \<not> isWhitespace c) s"
  have s: "s = ?w @ ?r" by simp
  have wne: "?w \<noteq> []" using more.prems(2,3) by (simp add: takeWhile_eq_Nil_iff)
  from more.hyps obtain c cs where rc: "?r = c # cs" by (cases ?r) auto
  have "\<not> \<not> isWhitespace (hd ?r)" using more.hyps by (rule hd_dropWhile)
  then have wc: "isWhitespace c" unfolding rc by simp
  have "spaced ?r" using more.prems(1) more.hyps spaced_suffix [of ?w ?r] by simp
  then have "spaced (c # cs)" unfolding rc .
  from spaced_whitespace_head [OF this wc]
  have c: "c = SPACE" and cne: "cs \<noteq> []" and hc: "\<not> isWhitespace (hd cs)" by simp_all
  have rest: "dropWhile isWhitespace ?r = cs"
    unfolding rc using wc cne hc by (simp add: dropWhile_eq_self_iff)
  have "spaced cs" using \<open>spaced (c # cs)\<close> cne spaced_suffix [of "[c]" cs] by simp
  then have ih: "joinSpace (filter (\<lambda>w. w \<noteq> []) (splitWhitespace cs)) = cs"
    using more.IH cne hc unfolding rest by simp
  then have ne: "filter (\<lambda>w. w \<noteq> []) (splitWhitespace cs) \<noteq> []"
    using cne by auto
  have "joinSpace (filter (\<lambda>w. w \<noteq> []) (splitWhitespace s)) =
        joinSpace (?w # filter (\<lambda>w. w \<noteq> []) (splitWhitespace cs))"
    unfolding splitWhitespace_more [OF more.hyps] rest using wne by simp
  also have "\<dots> = ?w @ SPACE # cs"
    unfolding joinSpace_Cons [OF ne] ih ..
  also have "\<dots> = ?w @ ?r" unfolding rc c ..
  also have "\<dots> = s" by simp
  finally show ?case .
qed

lemma splitLongSentence_join:
  assumes "spaced s" and "s \<noteq> []" and "\<not> isWhitespace (hd s)"
  shows "joinSpace (map chunk_text (splitLongSentence s off)) = s"
  unfolding splitLongSentence_def splitLoop_join
  using splitWhitespace_join [OF assms] by simp

lemma sentenceChunks_join:
  assumes "spaced (trim (fst m))" and "trim (fst m) \<noteq> []" and "\<not> isWhitespace (hd (trim (fst m)))"
  shows "joinSpace (map chunk_text (sentenceChunks m)) = trim (fst m) \<and> sentenceChunks m \<noteq> []"
proof (cases "length (trim (fst m)) \<le> MAX_CHUNK_LENGTH")
  case True
  then show ?thesis using assms(2) by (simp add: sentenceChunks_def)
next
  case False
  then have eq: "sentenceChunks m = splitLongSentence (trim (fst m)) (snd m)"
    using assms(2) by (simp add: sentenceChunks_def)
  have j: "joinSpace (map chunk_text (splitLongSentence (trim (fst m)) (snd m))) = trim (fst m)"
    by (rule splitLongSentence_join [OF assms])
  then have "splitLongSentence (trim (fst m)) (snd m) \<noteq> []" using assms(2) by auto
  with j show ?thesis unfolding eq by simp
qed

subsection \<open>Terminators followed by a space\<close>

lemma terminatorsSpaced_tail: "terminatorsSpaced (a # cs) \<Longrightarrow> terminatorsSpaced cs"
  by (cases cs) simp_all

lemma terminatorsSpaced_suffix: "terminatorsSpaced (xs @ ys) \<Longrightarrow> terminatorsSpaced ys"
  by (induction xs) (auto dest: terminatorsSpaced_tail)

lemma terminatorsSpaced_after:
  assumes "terminatorsSpaced (xs @ t # b # cs)" and "isTerminator t"
  shows "isTerminator b \<or>
         (isWhitespace b \<and> (case cs of [] \<Rightarrow> True | c # _ \<Rightarrow> \<not> isTerminator c))"
proof -
  have "terminatorsSpaced (t # b # cs)" using assms(1) by (rule terminatorsSpaced_suffix)
  with assms(2) show ?thesis by simp
qed


subsection \<open>The matches of a well punctuated text\<close>

lemma firstMatch_afterMatch: "firstMatch s @ afterMatch s = s"
  by (simp add: firstMatch_def afterMatch_def)

lemma match_decompose:
  assumes sp: "spaced s" and tp: "terminatorsSpaced s" and ne: "s \<noteq> []"
    and nt: "\<not> isTerminator (hd s)" and nw: "\<not> isWhitespace (hd s)"
  shows "spaced (trim (firstMatch s)) \<and> trim (firstMatch s) \<noteq> [] \<and>
         \<not> isWhitespace (hd (trim (firstMatch s))) \<and>
         (if afterMatch s = [] then trim (firstMatch s) = s
          else s = trim (firstMatch s) @ SPACE # afterMatch s \<and>
               spaced (afterMatch s) \<and> terminatorsSpaced (afterMatch s) \<and>
               \<not> isTerminator (hd (afterMatch s)) \<and> \<not> isWhitespace (hd (afterMatch s)))"
proof -
  define body where "body = takeWhile (\<lambda>c. \<not> isTerminator c) s"
  define r1 where "r1 = dropWhile (\<lambda>c. \<not> isTerminator c) s"
  define marks where "marks = takeWhile isTerminator r1"
  define r2 where "r2 = dropWhile isTerminator r1"
  define x where "x = body @ marks"
  have fm: "firstMatch s = x @ takeWhile isWhitespace r2"
    by (simp add: firstMatch_def x_def body_def marks_def r1_def r2_def)
  have am: "afterMatch s = dropWhile isWhitespace r2"
    by (simp add: afterMatch_def r1_def r2_def)
  have s1: "s = body @ r1" by (simp add: body_def r1_def)
  have r1: "r1 = marks @ r2" by (simp add: marks_def r2_def)
  have sx: "s = x @ r2" unfolding x_def using s1 r1 by simp
  have bne: "body \<noteq> []" unfolding body_def using ne nt by (simp add: takeWhile_eq_Nil_iff)
  then have xne: "x \<noteq> []" by (simp add: x_def)
  have "hd s = hd body" unfolding s1 using bne by simp
  then have hx: "\<not> isWhitespace (hd x)" using bne nw by (simp add: x_def)
  have marks_term: "\<forall>c\<in>set marks. isTerminator c"
    unfolding marks_def by (auto dest: set_takeWhileD)
  have r1_head: "isTerminator (hd r1)" if "r1 \<noteq> []"
    using hd_dropWhile [of "\<lambda>c. \<not> isTerminator c" s] that unfolding r1_def by simp
  have marks_ne: "marks \<noteq> []" if "r1 \<noteq> []"
    unfolding marks_def using that r1_head [OF that] by (simp add: takeWhile_eq_Nil_iff)
  have lx: "\<not> isWhitespace (last x)"
  proof (cases "marks = []")
    case False
    then have "last x = last marks" by (simp add: x_def)
    moreover have "last marks \<in> set marks" using False by simp
    ultimately show ?thesis using marks_term terminator_not_whitespace by metis
  next
    case True
    then have "r1 = []" using marks_ne by blast
    then have "s = x" unfolding s1 x_def using True by simp
    moreover have "\<not> isWhitespace (last s)" using sp ne by (simp add: spaced_def)
    ultimately show ?thesis by simp
  qed
  show ?thesis
  proof (cases r2)
    case Nil
    have xs: "x = s" unfolding sx Nil by simp
    have "trim (x @ []) = x" by (rule trim_strip [OF xne hx lx]) simp
    then have t: "trim (firstMatch s) = x" unfolding fm Nil by simp
    have a: "afterMatch s = []" unfolding am Nil by simp
    show ?thesis unfolding t a xs using sp ne nw by simp
  next
    case (Cons b cs)
    have r1ne: "r1 \<noteq> []" unfolding r1 Cons by simp
    have mne: "marks \<noteq> []" by (rule marks_ne [OF r1ne])
    have lt: "isTerminator (last marks)" using mne marks_term by simp
    have "\<not> isTerminator (hd r2)"
      using hd_dropWhile [of isTerminator r1] Cons unfolding r2_def by simp
    then have bt: "\<not> isTerminator b" unfolding Cons by simp
    have "marks = butlast marks @ [last marks]" using mne by simp
    then have "x @ b # cs = (body @ butlast marks) @ last marks # b # cs"
      unfolding x_def by (metis append.assoc append_Cons append_Nil)
    then have "terminatorsSpaced ((body @ butlast marks) @ last marks # b # cs)"
      using tp unfolding sx Cons by simp
    from terminatorsSpaced_after [OF this lt] bt
    have wb: "isWhitespace b" and nc: "case cs of [] \<Rightarrow> True | c # _ \<Rightarrow> \<not> isTerminator c"
      by simp_all
    have spxb: "spaced (x @ b # cs)" and tpxb: "terminatorsSpaced (x @ b # cs)"
      using sp tp unfolding sx Cons by simp_all
    have "spaced (b # cs)" using spaced_suffix [OF spxb] by simp
    from spaced_whitespace_head [OF this wb]
    have b: "b = SPACE" and cne: "cs \<noteq> []" and hc: "\<not> isWhitespace (hd cs)" by simp_all
    have spaces: "takeWhile isWhitespace r2 = [b]"
      unfolding Cons using wb cne hc by (simp add: takeWhile_eq_Nil_iff)
    have rest: "dropWhile isWhitespace r2 = cs"
      unfolding Cons using wb cne hc by (simp add: dropWhile_eq_self_iff)
    have t: "trim (firstMatch s) = x"
      unfolding fm spaces by (rule trim_strip [OF xne hx lx]) (simp add: wb)
    have spx: "spaced x" by (rule spaced_prefix [OF spxb xne lx])
    have "spaced ((x @ [b]) @ cs)" "terminatorsSpaced ((x @ [b]) @ cs)"
      using spxb tpxb by simp_all
    then have spc: "spaced cs" and tpc: "terminatorsSpaced cs"
      using cne spaced_suffix terminatorsSpaced_suffix by blast+
    have htc: "\<not> isTerminator (hd cs)" using nc cne by (cases cs) simp_all
    have a: "afterMatch s = cs" unfolding am rest ..
    have "s = x @ SPACE # cs" unfolding sx Cons b ..
    then show ?thesis
      unfolding t a using spx xne hx cne spc tpc htc hc by simp
  qed
qed

lemma matches_join:
  "spaced s \<Longrightarrow> terminatorsSpaced s \<Longrightarrow> s \<noteq> [] \<Longrightarrow> \<not> isTerminator (hd s) \<Longrightarrow>
   \<not> isWhitespace (hd s) \<Longrightarrow>
   joinSpace (map chunk_text (concat (map sentenceChunks (sentenceMatches s i)))) = s \<and>
   concat (map sentenceChunks (sentenceMatches s i)) \<noteq> []"
proof (induction s i rule: sentenceMatches_induct)
  case (none s i)
  from none.prems(3,4) have "dropWhile isTerminator s = s" by (simp add: dropWhile_eq_self_iff)
  with none.hyps none.prems(3) show ?case by simp
next
  case (some s i)
  have d: "dropWhile isTerminator s = s" using some.prems(3,4) by (simp add: dropWhile_eq_self_iff)
  have tk: "takeWhile isTerminator s = []" using some.prems(3,4) by (simp add: takeWhile_eq_Nil_iff)
  define m where "m = (firstMatch s, i)"
  define rest where "rest = afterMatch s"
  define ms where "ms = sentenceMatches rest (i + length (firstMatch s))"
  define first where "first = sentenceChunks m"
  define later where "later = concat (map sentenceChunks ms)"
  have eq: "sentenceMatches s i = m # ms"
    using sentenceMatches_some [OF some.hyps, of i] unfolding d tk m_def ms_def rest_def by simp
  have whole: "concat (map sentenceChunks (sentenceMatches s i)) = first @ later"
    unfolding eq first_def later_def by simp
  note dec = match_decompose [OF some.prems]
  have tm: "trim (fst m) = trim (firstMatch s)" by (simp add: m_def)
  from dec have "spaced (trim (fst m))" "trim (fst m) \<noteq> []" "\<not> isWhitespace (hd (trim (fst m)))"
    unfolding tm by blast+
  from sentenceChunks_join [OF this]
  have a: "joinSpace (map chunk_text first) = trim (firstMatch s)" and ane: "first \<noteq> []"
    unfolding first_def tm by blast+
  show ?case
  proof (cases "afterMatch s = []")
    case True
    then have "ms = []" unfolding ms_def rest_def by (simp add: sentenceMatches_none)
    then have "later = []" by (simp add: later_def)
    moreover have "trim (firstMatch s) = s" using dec True by simp
    ultimately show ?thesis unfolding whole using a ane by simp
  next
    case False
    with dec have s: "s = trim (firstMatch s) @ SPACE # rest" and p: "spaced rest"
      "terminatorsSpaced rest" "\<not> isTerminator (hd rest)" "\<not> isWhitespace (hd rest)"
      unfolding rest_def by simp_all
    have rne: "rest \<noteq> []" using False by (simp add: rest_def)
    note ih = some.IH [unfolded d tk list.size add_0_right, folded rest_def, folded ms_def,
        folded later_def, OF p(1,2) rne p(3,4)]
    have b: "joinSpace (map chunk_text later) = rest" using ih by (rule conjunct1)
    have bne: "later \<noteq> []" using ih by (rule conjunct2)
    have "joinSpace (map chunk_text (first @ later)) =
          joinSpace (map chunk_text first) @ SPACE # joinSpace (map chunk_text later)"
      using joinSpace_append [of "map chunk_text first" "map chunk_text later"] ane bne by simp
    also have "\<dots> = trim (firstMatch s) @ SPACE # rest" unfolding a b ..
    also have "\<dots> = s" using s by simp
    finally show ?thesis unfolding whole using ane by simp
  qed
qed


text \<open>
  C1, as stated, fails in three ways.  A terminator directly followed by a word ends a
  chunk, and joining puts a space there: \<open>a.b\<close> gives \<open>a. b\<close>.  A terminator at the start
  of the text, or after the whitespace that follows a terminator, is where the pattern
  cannot begin a match, and is left out: \<open>?a\<close> gives \<open>a\<close> and \<open>a. ?b\<close> gives \<open>a. b\<close>.
\<close>

theorem chunkText_join_counterexample:
  "joinSpace (map chunk_text (chunkText (utf16 ''a.b''))) \<noteq> normalize (utf16 ''a.b'') \<and>
   joinSpace (map chunk_text (chunkText (utf16 ''?a''))) \<noteq> normalize (utf16 ''?a'') \<and>
   joinSpace (map chunk_text (chunkText (utf16 ''a. ?b''))) \<noteq> normalize (utf16 ''a. ?b'')"
  by code_simp

text \<open>
  C1, amended.  For every input text whose normalized form is well punctuated (it does
  not begin with a terminator, and each terminator in it is followed by another
  terminator, by the end of the text, or by a space before a code unit that is not a
  terminator), the texts of the chunks returned by \<open>chunkText\<close>, joined by single spaces,
  are exactly the normalized input.
\<close>

theorem chunkText_join:
  assumes "wellPunctuated (normalize text)"
  shows "joinSpace (map chunk_text (chunkText text)) = normalize text"
proof (cases "normalize text = []")
  case True
  then show ?thesis by (simp add: chunkText_def)
next
  case False
  from assms False have nt: "\<not> isTerminator (hd (normalize text))"
    and tp: "terminatorsSpaced (normalize text)"
    by (cases "normalize text"; simp add: wellPunctuated_def)+
  from spaced_normalize [of "text"] False have sp: "spaced (normalize text)"
    and nw: "\<not> isWhitespace (hd (normalize text))"
    by blast+
  note j = matches_join [OF sp tp False nt nw, of 0]
  have "chunkText text = concat (map sentenceChunks (sentenceMatches (normalize text) 0))"
    using False j by (auto simp: chunkText_def Let_def)
  then show ?thesis using j by simp
qed

theorem chunkText_join_witness:
  "wellPunctuated (normalize (utf16 ''  Bonjour !  Comment vas   tu? Bien...'')) \<and>
   normalize (utf16 ''  Bonjour !  Comment vas   tu? Bien...'')
     = utf16 ''Bonjour ! Comment vas tu? Bien...'' \<and>
   map chunk_text (chunkText (utf16 ''  Bonjour !  Comment vas   tu? Bien...''))
     = [utf16 ''Bonjour !'', utf16 ''Comment vas tu?'', utf16 ''Bien...''] \<and>
   joinSpace (map chunk_text (chunkText (utf16 ''  Bonjour !  Comment vas   tu? Bien...'')))
     = utf16 ''Bonjour ! Comment vas tu? Bien...''"
proof -
  let ?t = "utf16 ''  Bonjour !  Comment vas   tu? Bien...''"
  have h: "wellPunctuated (normalize ?t)" by code_simp
  have n: "normalize ?t = utf16 ''Bonjour ! Comment vas tu? Bien...''" by code_simp
  have c: "map chunk_text (chunkText ?t)
             = [utf16 ''Bonjour !'', utf16 ''Comment vas tu?'', utf16 ''Bien...'']"
    by code_simp
  have "joinSpace (map chunk_text (chunkText ?t)) = normalize ?t"
    by (rule chunkText_join [OF h])
  then have j: "joinSpace (map chunk_text (chunkText ?t)) = utf16 ''Bonjour ! Comment vas tu? Bien...''"
    unfolding n .
  show ?thesis using h n c j by (intro conjI)
qed

end
